theory Spec2Isabelle
  imports Main "HOL-Library.Sublist"
begin

section \<open>Strings of the platform\<close>

text \<open>
  JavaScript renders a non-negative integer inside a template literal as its decimal
  digits, without sign and without leading zeros. The counter \<open>imageId\<close> of the update
  page only takes such values (it starts at 0 and is only incremented), so a natural
  number stands for it; the loss of precision of a double beyond \<open>2 ^ 53\<close> is not modelled.
\<close>

definition digit_char :: "nat \<Rightarrow> char" where
  "digit_char d = char_of (48 + d)"

fun string_of_nat :: "nat \<Rightarrow> string" where
  "string_of_nat n =
     (if n < 10 then [digit_char n]
      else string_of_nat (n div 10) @ [digit_char (n mod 10)])"

declare string_of_nat.simps [simp del]

text \<open>
  \<open>String.prototype.split\<close> with a one-character separator: the pieces between the
  occurrences of the separator, the empty string giving one empty piece.
\<close>

fun split :: "char \<Rightarrow> string \<Rightarrow> string list" where
  "split sep [] = [[]]"
| "split sep (c # cs) =
     (if c = sep then [] # split sep cs
      else (case split sep cs of
              [] \<Rightarrow> [[c]]
            | s # ss \<Rightarrow> (c # s) # ss))"

definition newline :: char where
  "newline = CHR 0x0A"

text \<open>\<open>Array.prototype.join\<close> with a one-character separator.\<close>

fun join :: "char \<Rightarrow> string list \<Rightarrow> string" where
  "join sep [] = []"
| "join sep [s] = s"
| "join sep (s # t # ss) = s @ sep # join sep (t # ss)"

section \<open>The update page: data\<close>

text \<open>A file of a file input: the model keeps its name and its content type.\<close>

record File =
  file_name :: string
  file_type :: string

text \<open>
  An element of the state \<open>imageInfos\<close> (update.tsx, line 46). The page pushes objects
  \<open>{ id, url }\<close> (line 104); the completion handler of the post query stores
  \<open>post.imageUrls\<close> in the same state (line 75), and these are the hosted URLs themselves
  (the detail page passes each of them to \<open>src\<close>, [id].tsx lines 342 to 344), on which the
  property \<open>id\<close> is undefined.
\<close>

datatype ImageInfo = ImageInfo nat string | HostedUrl string

fun info_id :: "ImageInfo \<Rightarrow> nat option" where
  "info_id (ImageInfo i u) = Some i"
| "info_id (HostedUrl u) = None"

text \<open>
  The name under which a file is appended to the form data, \<open>`image${imageId}`\<close>
  (lines 105 and 116). The delete button of a preview calls \<open>deletePreviewImage\<close> with
  \<open>imageInfo.id\<close> (line 178), which is undefined for a hosted URL and then rendered as
  the word \<open>undefined\<close>.
\<close>

fun image_key :: "nat option \<Rightarrow> string" where
  "image_key (Some i) = ''image'' @ string_of_nat i"
| "image_key None = ''imageundefined''"

text \<open>
  \<open>FormData\<close>: an ordered list of entries, the same name allowed more than once;
  \<open>append\<close> adds at the end, \<open>delete\<close> removes every entry of a name, \<open>has\<close> tests for one.
\<close>

type_synonym form_data = "(string \<times> File) list"

definition fd_append :: "string \<Rightarrow> File \<Rightarrow> form_data \<Rightarrow> form_data" where
  "fd_append k f fd = fd @ [(k, f)]"

definition fd_delete :: "string \<Rightarrow> form_data \<Rightarrow> form_data" where
  "fd_delete k fd = filter (\<lambda>e. fst e \<noteq> k) fd"

definition fd_has :: "string \<Rightarrow> form_data \<Rightarrow> bool" where
  "fd_has k fd = (k \<in> set (map fst fd))"

text \<open>
  The messages shown by the pages are Korean string literals; each is named here:
  the \<open>required\<close> messages of the title and of the contents (update.tsx, lines 161 and
  168), the success toast of the update (line 86), the \<open>required\<close> message of the comment
  ([id].tsx, line 256) and the success toast of the comment (line 243).
\<close>

datatype message =
  TitleRequired | ContentsRequired | PostUpdated | CommentRequired | CommentCreated

text \<open>The error of a query, a mutation or an upload, as the collaborator reports it.\<close>

datatype failure = Failure string

text \<open>
  An error object of the form library: its message, and a number standing for the identity
  of the object, two objects being the same object exactly when they carry the same
  number.
\<close>

record FieldError =
  fe_message :: message
  fe_ident :: nat

text \<open>\<open>formState.errors\<close> of the form: one optional error for each registered field.\<close>

record field_errors =
  title_error :: "FieldError option"
  contents_error :: "FieldError option"

text \<open>
  What the last render of the page has read from its state and put on the screen: the
  \<open>disabled\<close> attributes are computed from the three flags (lines 149, 158, 164 and
  188), and \<open>errors.contents\<close> and \<open>errors.title\<close> are the dependencies of the
  effect of lines 134 to 138. The controls on the screen keep these attributes until
  the next render.
\<close>

record view =
  v_loading :: bool
  v_errors :: field_errors
  v_isPostUpdateLoading :: bool

text \<open>\<open>variables.input\<close> of the update mutation (line 124 and line 127).\<close>

record update_input =
  input_id :: string
  input_title :: string
  input_contents :: string
  input_imageUrls :: "string list option"

text \<open>
  \<open>updatePost\<close> is an async function: it runs until its first \<open>await\<close> and resumes
  when the awaited promise settles. A task is a call of \<open>updatePost\<close> suspended at one
  of its two \<open>await\<close>s (line 126, with the variables built so far; line 130).
\<close>

datatype task = AwaitUpload update_input | AwaitMutation

text \<open>What the page asks of its collaborators.\<close>

datatype effect =
    UploadImageFiles form_data
  | UpdatePostMutation update_input
  | ToastSuccess message
  | ToastWarn message
  | ToastApolloError failure
  | RouterBack

text \<open>
  The state of one \<open>PostUpdatePage\<close>: the two \<open>useState\<close> cells, the two refs
  (\<open>formData.current\<close> is null where the platform has no \<open>FormData\<close>, line 48), the route's
  \<open>postId\<close>, the values, the errors and the \<open>isSubmitted\<close> flag the form library holds
  (with the number of the next error object), the \<open>loading\<close> flag of the post query, the
  suspended calls of \<open>updatePost\<close> and what the last render has put on the screen.
\<close>

record page =
  imageInfos :: "ImageInfo list"
  isPostUpdateLoading :: bool
  formData :: "form_data option"
  imageId :: nat
  postId :: string
  title :: string
  contents :: string
  errors :: field_errors
  isSubmitted :: bool
  nextIdent :: nat
  loading :: bool
  inflight :: "task list"
  view :: view

section \<open>The update page: staging images\<close>

text \<open>
  The loop of \<open>createPreviewImages\<close> (lines 102 to 108) over the selected files, on the
  new previews, the form data and the counter. The counter is incremented twice for
  each image: once in the template literal of line 105, once on line 106.
\<close>

fun stage_files ::
  "(File \<Rightarrow> string) \<Rightarrow> File list \<Rightarrow> ImageInfo list \<times> form_data \<times> nat
     \<Rightarrow> ImageInfo list \<times> form_data \<times> nat" where
  "stage_files createObjectURL [] acc = acc"
| "stage_files createObjectURL (f # fs) (newImageUrls, fd, n) =
     (if prefix ''image/'' (file_type f)
      then stage_files createObjectURL fs
             (newImageUrls @ [ImageInfo n (createObjectURL f)],
              fd_append (image_key (Some n)) f fd,
              n + 1 + 1)
      else stage_files createObjectURL fs (newImageUrls, fd, n))"

text \<open>
  \<open>createPreviewImages\<close> (lines 97 to 112). \<open>e.target.files\<close> is null or a list of
  files; \<open>URL.createObjectURL\<close> is a parameter.
\<close>

definition createPreviewImages ::
  "(File \<Rightarrow> string) \<Rightarrow> File list option \<Rightarrow> page \<Rightarrow> page" where
  "createPreviewImages createObjectURL files st =
     (case files of
        None \<Rightarrow> st
      | Some fs \<Rightarrow>
          if 0 < length fs then
            (case formData st of
               None \<Rightarrow> st
             | Some fd \<Rightarrow>
                 (case stage_files createObjectURL fs ([], fd, imageId st) of
                    (newImageUrls, fd', n') \<Rightarrow>
                      st\<lparr>imageInfos := imageInfos st @ newImageUrls,
                         formData := Some fd',
                         imageId := n'\<rparr>))
          else st)"

text \<open>\<open>deletePreviewImage\<close> (lines 114 to 119).\<close>

definition deletePreviewImage :: "nat option \<Rightarrow> page \<Rightarrow> page" where
  "deletePreviewImage i st =
     (case formData st of
        None \<Rightarrow> st
      | Some fd \<Rightarrow>
          st\<lparr>formData := Some (fd_delete (image_key i) fd),
             imageInfos := filter (\<lambda>prev. info_id prev \<noteq> i) (imageInfos st)\<rparr>)"

section \<open>The update page: the form\<close>

text \<open>
  Modelled from the spec: \<open>isEmpty\<close> of \<open>src/utils\<close> is not among the sources. It is
  applied to the errors object of the form on line 149 and read by its name: the object
  has no entry, that is, no field has failed its validation.
\<close>

definition isEmpty :: "field_errors \<Rightarrow> bool" where
  "isEmpty errs = (title_error errs = None \<and> contents_error errs = None)"

text \<open>The \<open>disabled\<close> attribute of the submit button, as rendered (line 149).\<close>

definition submitDisabled :: "view \<Rightarrow> bool" where
  "submitDisabled v = (v_loading v \<or> \<not> isEmpty (v_errors v) \<or> v_isPostUpdateLoading v)"

text \<open>The \<open>disabled\<close> attribute of the two text fields and of the file input, as
  rendered (lines 158, 164 and 188).\<close>

definition inputDisabled :: "view \<Rightarrow> bool" where
  "inputDisabled v = (v_loading v \<or> v_isPostUpdateLoading v)"

text \<open>
  Modelled from the spec: the form library (react-hook-form) is not among the sources.
  The rule \<open>required\<close> of a registered text field (lines 161 and 168) fails on the empty
  string and then reports the message given with it; \<open>handleSubmit\<close> validates every
  field, records the errors, and calls its argument with the values only when no field
  failed ("validation failure ... blocks submission"); with \<open>reValidateMode: 'onBlur'\<close>
  (line 65) a field is validated again when it loses focus, once the form has been
  submitted ("re-validates on field blur"). Every validation that fails makes a new
  error object. Validating does not render the page.
\<close>

definition required :: "message \<Rightarrow> string \<Rightarrow> nat \<Rightarrow> FieldError option" where
  "required msg v ident =
     (if v = [] then Some \<lparr>fe_message = msg, fe_ident = ident\<rparr> else None)"

definition validate :: "page \<Rightarrow> field_errors" where
  "validate st =
     \<lparr>title_error = required TitleRequired (title st) (nextIdent st),
      contents_error = required ContentsRequired (contents st) (nextIdent st + 1)\<rparr>"

record PostUpdateInput =
  in_title :: string
  in_contents :: string

definition handleSubmit ::
  "(PostUpdateInput \<Rightarrow> page \<Rightarrow> page \<times> effect list) \<Rightarrow> page \<Rightarrow> page \<times> effect list" where
  "handleSubmit onValid st =
     (let errs = validate st;
          st1 = st\<lparr>errors := errs, isSubmitted := True, nextIdent := nextIdent st + 2\<rparr>
      in if isEmpty errs
         then onValid \<lparr>in_title = title st, in_contents = contents st\<rparr> st1
         else (st1, []))"

datatype field = Title | Contents

definition revalidate :: "field \<Rightarrow> page \<Rightarrow> page" where
  "revalidate f st =
     (if isSubmitted st then
        (case f of
           Title \<Rightarrow>
             st\<lparr>errors := (errors st)\<lparr>title_error :=
                                        required TitleRequired (title st) (nextIdent st)\<rparr>,
                nextIdent := nextIdent st + 1\<rparr>
         | Contents \<Rightarrow>
             st\<lparr>errors := (errors st)\<lparr>contents_error :=
                                        required ContentsRequired (contents st) (nextIdent st)\<rparr>,
                nextIdent := nextIdent st + 1\<rparr>)
      else st)"

text \<open>
  The effect of lines 134 to 138: when one of the two errors is set, one warning toast
  with \<open>errors.title?.message ?? errors.contents?.message\<close>.
\<close>

definition errorToast :: "field_errors \<Rightarrow> effect list" where
  "errorToast errs =
     (case title_error errs of
        Some e \<Rightarrow> [ToastWarn (fe_message e)]
      | None \<Rightarrow>
          (case contents_error errs of Some e \<Rightarrow> [ToastWarn (fe_message e)] | None \<Rightarrow> []))"

text \<open>
  A render of the page: the screen takes the attributes of the present state, and the
  effect of lines 134 to 138 runs when one of its dependencies is not the object it was
  at the render before (line 138).
\<close>

definition render :: "page \<Rightarrow> page \<times> effect list" where
  "render st =
     (st\<lparr>view := \<lparr>v_loading = loading st, v_errors = errors st,
                   v_isPostUpdateLoading = isPostUpdateLoading st\<rparr>\<rparr>,
      if contents_error (errors st) \<noteq> contents_error (v_errors (view st))
         \<or> title_error (errors st) \<noteq> title_error (v_errors (view st))
      then errorToast (errors st) else [])"

section \<open>The update page: submission\<close>

text \<open>\<open>formData.current?.has('images')\<close> (line 125).\<close>

definition has_images :: "page \<Rightarrow> bool" where
  "has_images st = (case formData st of None \<Rightarrow> False | Some fd \<Rightarrow> fd_has ''images'' fd)"

text \<open>
  \<open>updatePost\<close> (lines 121 to 132) up to its first \<open>await\<close>: the upload of line 126 when
  the test of line 125 succeeds (the form data is then at hand), the mutation of line 130
  otherwise. The function does not read \<open>isPostUpdateLoading\<close>.
\<close>

definition updatePost :: "PostUpdateInput \<Rightarrow> page \<Rightarrow> page \<times> effect list" where
  "updatePost input st =
     (let st1 = st\<lparr>isPostUpdateLoading := True\<rparr>;
          variables = \<lparr>input_id = postId st1, input_title = in_title input,
                       input_contents = in_contents input, input_imageUrls = None\<rparr>
      in if has_images st1
         then (case formData st1 of
                 None \<Rightarrow> (st1, [])
               | Some fd \<Rightarrow>
                   (st1\<lparr>inflight := inflight st1 @ [AwaitUpload variables]\<rparr>,
                    [UploadImageFiles fd]))
         else (st1\<lparr>inflight := inflight st1 @ [AwaitMutation]\<rparr>,
               [UpdatePostMutation variables]))"

text \<open>A suspended call that ends leaves the list of the suspended calls.\<close>

definition remove_nth :: "nat \<Rightarrow> 'a list \<Rightarrow> 'a list" where
  "remove_nth i xs = take i xs @ drop (Suc i) xs"

text \<open>
  The upload settles (line 126). A rejection leaves \<open>updatePost\<close> through the \<open>await\<close>:
  no line after it runs, and the function has no handler for it. A result continues
  with lines 127 and 130.
\<close>

definition uploadSettled :: "nat \<Rightarrow> failure + string list \<Rightarrow> page \<Rightarrow> page \<times> effect list" where
  "uploadSettled i res st =
     (if i < length (inflight st) then
        (case inflight st ! i of
           AwaitUpload variables \<Rightarrow>
             (case res of
                Inl e \<Rightarrow> (st\<lparr>inflight := remove_nth i (inflight st)\<rparr>, [])
              | Inr imageUrls \<Rightarrow>
                  (st\<lparr>inflight := (inflight st)[i := AwaitMutation]\<rparr>,
                   [UpdatePostMutation (variables\<lparr>input_imageUrls := Some imageUrls\<rparr>)]))
         | AwaitMutation \<Rightarrow> (st, []))
      else (st, []))"

text \<open>
  The outcome of the mutation: an error, or the data \<open>updatePost\<close> of the response (the
  identifier of the post, or null).
\<close>

datatype mutation_result = MutationError failure | MutationCompleted "string option"

text \<open>
  The options given to \<open>useUpdatePostMutation\<close> (lines 83 to 91): \<open>onCompleted\<close> shows the
  success toast and goes back when the data is not null, \<open>onError\<close> is \<open>toastApolloError\<close>
  (of \<open>src/apollo/error\<close>, a notification of the error).
\<close>

definition updatePostCallbacks :: "mutation_result \<Rightarrow> effect list" where
  "updatePostCallbacks res =
     (case res of
        MutationError e \<Rightarrow> [ToastApolloError e]
      | MutationCompleted None \<Rightarrow> []
      | MutationCompleted (Some updated) \<Rightarrow> [ToastSuccess PostUpdated, RouterBack])"

text \<open>
  The mutation settles (line 130). The GraphQL client is not among the sources: its
  mutate function calls the matching option and, an \<open>onError\<close> option being given (line
  90), resolves in both cases, so that line 131 runs next ("mutation error: surfaced via
  notification; authoring state preserved; isSubmitting reset").
\<close>

definition mutationSettled :: "nat \<Rightarrow> mutation_result \<Rightarrow> page \<Rightarrow> page \<times> effect list" where
  "mutationSettled i res st =
     (if i < length (inflight st) then
        (case inflight st ! i of
           AwaitMutation \<Rightarrow>
             (st\<lparr>inflight := remove_nth i (inflight st), isPostUpdateLoading := False\<rparr>,
              updatePostCallbacks res)
         | AwaitUpload variables \<Rightarrow> (st, []))
      else (st, []))"

text \<open>
  Submitting the form (line 144). The submit button is the form's only submit control,
  and the text fields from which the form could be submitted by the keyboard are disabled
  with it; what stops the gesture is the attribute on the screen, which is that of the
  last render. The handler itself, \<open>handleSubmit(updatePost)\<close>, has no guard.
\<close>

definition submit :: "page \<Rightarrow> page \<times> effect list" where
  "submit st =
     (if submitDisabled (view st) then (st, [])
      else handleSubmit updatePost st)"

section \<open>The update page: the post query and the session\<close>

record post =
  post_title :: string
  post_contents :: string
  post_imageUrls :: "string list option"

text \<open>\<open>onCompleted\<close> of the post query (lines 71 to 77).\<close>

definition postQueryCompleted :: "post option \<Rightarrow> page \<Rightarrow> page" where
  "postQueryCompleted p st =
     (case p of
        None \<Rightarrow> st
      | Some post \<Rightarrow>
          (let st1 = st\<lparr>title := post_title post, contents := post_contents post\<rparr>
           in case post_imageUrls post of
                None \<Rightarrow> st1
              | Some urls \<Rightarrow> st1\<lparr>imageInfos := map HostedUrl urls\<rparr>))"

text \<open>
  The first render (lines 46 to 66 and 79): the query is skipped, and so never loading,
  when the route has no post id or the current user has no nickname.
\<close>

definition init :: "bool \<Rightarrow> string \<Rightarrow> string option \<Rightarrow> page" where
  "init hasFormData pid nickname =
     \<lparr>imageInfos = [], isPostUpdateLoading = False,
      formData = (if hasFormData then Some [] else None),
      imageId = 0, postId = pid, title = [], contents = [],
      errors = \<lparr>title_error = None, contents_error = None\<rparr>,
      isSubmitted = False, nextIdent = 0,
      loading = (\<not> (pid = [] \<or> nickname = None \<or> nickname = Some [])),
      inflight = [],
      view = \<lparr>v_loading = (\<not> (pid = [] \<or> nickname = None \<or> nickname = Some [])),
               v_errors = \<lparr>title_error = None, contents_error = None\<rparr>,
               v_isPostUpdateLoading = False\<rparr>\<rparr>"

text \<open>
  What can happen to a mounted page: the post query settles; the user selects files,
  clicks the delete button of a preview, types into a field, leaves a field, submits;
  an upload or a mutation of a suspended \<open>updatePost\<close> settles; the page is rendered.
  A control that is disabled on the screen receives no event. A render may come at any
  moment after a change of the state, so that several events can fall between two
  renders.
\<close>

datatype event =
    QuerySettled "failure + post option"
  | SelectFiles "File list option"
  | ClickDelete "nat option"
  | TypeText field string
  | Blur field
  | Submit
  | UploadSettled nat "failure + string list"
  | MutationSettled nat mutation_result
  | Render

fun step :: "(File \<Rightarrow> string) \<Rightarrow> event \<Rightarrow> page \<Rightarrow> page \<times> effect list" where
  "step mk (QuerySettled res) st =
     (if loading st then
        (case res of
           Inl e \<Rightarrow> (st\<lparr>loading := False\<rparr>, [ToastApolloError e])
         | Inr p \<Rightarrow> ((postQueryCompleted p st)\<lparr>loading := False\<rparr>, []))
      else (st, []))"
| "step mk (SelectFiles files) st =
     (if inputDisabled (view st) then (st, []) else (createPreviewImages mk files st, []))"
| "step mk (ClickDelete i) st = (deletePreviewImage i st, [])"
| "step mk (TypeText f v) st =
     (if inputDisabled (view st) then (st, [])
      else (case f of Title \<Rightarrow> (st\<lparr>title := v\<rparr>, [])
                    | Contents \<Rightarrow> (st\<lparr>contents := v\<rparr>, [])))"
| "step mk (Blur f) st =
     (if inputDisabled (view st) then (st, []) else (revalidate f st, []))"
| "step mk Submit st = submit st"
| "step mk (UploadSettled i res) st = uploadSettled i res st"
| "step mk (MutationSettled i res) st = mutationSettled i res st"
| "step mk Render st = render st"

fun run :: "(File \<Rightarrow> string) \<Rightarrow> event list \<Rightarrow> page \<Rightarrow> page \<times> effect list" where
  "run mk [] st = (st, [])"
| "run mk (ev # evs) st =
     (case step mk ev st of
        (st1, effs1) \<Rightarrow> (case run mk evs st1 of (st2, effs2) \<Rightarrow> (st2, effs1 @ effs2)))"

text \<open>The identifiers of the staged previews, in the order of the previews.\<close>

definition staged_ids :: "ImageInfo list \<Rightarrow> nat list" where
  "staged_ids infos = List.map_filter info_id infos"

text \<open>The names in the form data, in its order.\<close>

definition bundle_keys :: "page \<Rightarrow> string list" where
  "bundle_keys st = (case formData st of None \<Rightarrow> [] | Some fd \<Rightarrow> map fst fd)"

text \<open>
  The identifiers a run assigns, in the order of their assignment: those of the
  previews each selection of files adds.
\<close>

fun assigned_ids :: "(File \<Rightarrow> string) \<Rightarrow> event list \<Rightarrow> page \<Rightarrow> nat list" where
  "assigned_ids mk [] st = []"
| "assigned_ids mk (ev # evs) st =
     (let st1 = fst (step mk ev st)
      in (case ev of
            SelectFiles files \<Rightarrow>
              staged_ids (drop (length (imageInfos st)) (imageInfos st1))
          | _ \<Rightarrow> [])
         @ assigned_ids mk evs st1)"

text \<open>
  What holds of the staging state throughout a session: the names in the form data are
  those of the staged previews, in the same order; the identifiers of the previews
  increase along the list and lie below the counter; nothing is staged while the post
  query is loading.
\<close>

definition staging_inv :: "page \<Rightarrow> bool" where
  "staging_inv st =
     (bundle_keys st = map (\<lambda>i. image_key (Some i)) (staged_ids (imageInfos st))
      \<and> sorted_wrt (<) (staged_ids (imageInfos st))
      \<and> list_all (\<lambda>i. i < imageId st) (staged_ids (imageInfos st))
      \<and> (loading st \<longrightarrow> imageInfos st = []))"

text \<open>
  What holds besides throughout a session: while the post query is loading the screen
  shows it, and every suspended call of \<open>updatePost\<close> awaits its mutation.
\<close>

definition session_inv :: "page \<Rightarrow> bool" where
  "session_inv st =
     (staging_inv st
      \<and> (loading st \<longrightarrow> v_loading (view st))
      \<and> list_all (\<lambda>t. t = AwaitMutation) (inflight st))"

section \<open>The detail page: the comment composer\<close>

text \<open>The comment replied to ([id].tsx, lines 208 to 212).\<close>

record ParentComment =
  pc_id :: string
  pc_nickname :: string
  pc_contents :: string

text \<open>The variables of the create-comment mutation (lines 260 and 261).\<close>

record create_comment_variables =
  var_contents :: string
  var_postId :: string
  var_commentId :: "string option"

datatype comment_effect =
    CreateCommentMutation create_comment_variables
  | CommentToastSuccess message
  | CommentToastApolloError failure

text \<open>
  The composer of one \<open>PostDetailPage\<close>: the value of the field \<open>contents\<close> of its form
  (line 251), the state \<open>parentComment\<close> (line 218), the route's \<open>postId\<close> (line 221) and
  the \<open>loading\<close> flag of the mutation (line 240).
\<close>

record composer =
  commentContents :: string
  parentComment :: "ParentComment option"
  commentPostId :: string
  commentLoading :: bool

text \<open>
  \<open>createComment\<close> (lines 259 to 265): the mutation is started, not awaited, and
  \<open>reset()\<close> puts the form back to its default values (line 252) at once.
\<close>

definition createComment :: "string \<Rightarrow> composer \<Rightarrow> composer \<times> comment_effect list" where
  "createComment form_contents st =
     (let variables = \<lparr>var_contents = form_contents, var_postId = commentPostId st,
                        var_commentId = None\<rparr>;
          variables = (case parentComment st of
                         None \<Rightarrow> variables
                       | Some parent \<Rightarrow> variables\<lparr>var_commentId := Some (pc_id parent)\<rparr>)
      in (st\<lparr>commentLoading := True, commentContents := []\<rparr>,
          [CreateCommentMutation variables]))"

text \<open>
  Submitting the composer (line 370), the rule \<open>required\<close> of line 256 read as for the
  update form: an empty comment is not handed to \<open>createComment\<close>.
\<close>

definition submitComment :: "composer \<Rightarrow> composer \<times> comment_effect list" where
  "submitComment st =
     (if commentContents st = [] then (st, [])
      else createComment (commentContents st) st)"

text \<open>
  The options given to \<open>useCreateCommentMutation\<close> (lines 240 to 249), called when the
  mutation settles; the data \<open>createComment\<close> of the response is the identifier of the
  comment, or null. The refetch of line 248 is not part of the composer.
\<close>

definition createCommentSettled ::
  "mutation_result \<Rightarrow> composer \<Rightarrow> composer \<times> comment_effect list" where
  "createCommentSettled res st =
     (case res of
        MutationError e \<Rightarrow> (st\<lparr>commentLoading := False\<rparr>, [CommentToastApolloError e])
      | MutationCompleted None \<Rightarrow> (st\<lparr>commentLoading := False\<rparr>, [])
      | MutationCompleted (Some created) \<Rightarrow>
          (st\<lparr>commentLoading := False, parentComment := None\<rparr>,
           [CommentToastSuccess CommentCreated]))"

text \<open>\<open>setParentComment\<close>, handed to each comment card (line 363) and used by line 276.\<close>

definition setParentComment :: "ParentComment option \<Rightarrow> composer \<Rightarrow> composer" where
  "setParentComment parent st = st\<lparr>parentComment := parent\<rparr>"

section \<open>Line counts\<close>

text \<open>\<open>contentsLineCount\<close> of the detail page ([id].tsx, line 254).\<close>

definition contentsLineCount :: "string \<Rightarrow> nat" where
  "contentsLineCount c = length (split newline c)"

text \<open>
  \<open>contentsLines\<close> of the update page (update.tsx, line 68), the height handed to the
  text area (line 165): the same count, scaled. The product of a count with the double
  1.6 is a parameter.
\<close>

definition contentsLines :: "(nat \<Rightarrow> 'h) \<Rightarrow> string \<Rightarrow> 'h" where
  "contentsLines times_1_6 c = times_1_6 (length (split newline c))"

text \<open>The submit button of the composer is rendered under this condition (line 380).\<close>

definition commentSubmitShown :: "string \<Rightarrow> bool" where
  "commentSubmitShown c = (0 < contentsLineCount c)"

section \<open>The navigation layout\<close>

text \<open>Lines 57 and 58 of NavigationLayout.tsx.\<close>

definition doesPostListSelected :: "string \<Rightarrow> bool" where
  "doesPostListSelected asPath = (asPath = ''/'')"

definition doesEventListSelected :: "string \<Rightarrow> bool" where
  "doesEventListSelected asPath = prefix ''/event'' asPath"

text \<open>
  The colours of the two tabs (lines 67 and 74), the post list first; the two colour
  constants of \<open>src/models/constants\<close> are parameters.
\<close>

definition NavigationLayout :: "'c \<Rightarrow> 'c \<Rightarrow> string \<Rightarrow> 'c \<times> 'c" where
  "NavigationLayout text_color achromatic_color asPath =
     (if doesPostListSelected asPath then text_color else achromatic_color,
      if doesEventListSelected asPath then text_color else achromatic_color)"

section \<open>Notions of the specification\<close>

text \<open>A decimal digit, by its character code.\<close>

definition is_digit :: "char \<Rightarrow> bool" where
  "is_digit c = (48 \<le> (of_char c :: nat) \<and> (of_char c :: nat) < 58)"

text \<open>The image files of a list of files: those whose content type starts with \<open>image/\<close>.\<close>

definition image_files :: "File list \<Rightarrow> File list" where
  "image_files fs = filter (\<lambda>f. prefix ''image/'' (file_type f)) fs"

text \<open>The files of a selection, none for the null of an emptied input.\<close>

definition selection :: "File list option \<Rightarrow> File list" where
  "selection files = (case files of None \<Rightarrow> [] | Some fs \<Rightarrow> fs)"

text \<open>The files in the form data, in its order.\<close>

definition bundle_files :: "page \<Rightarrow> File list" where
  "bundle_files st = (case formData st of None \<Rightarrow> [] | Some fd \<Rightarrow> map snd fd)"

text \<open>The entries of the form data, in its order.\<close>

definition bundle_entries :: "page \<Rightarrow> form_data" where
  "bundle_entries st = (case formData st of None \<Rightarrow> [] | Some fd \<Rightarrow> fd)"

text \<open>The calls of the two network collaborators of the update page.\<close>

fun is_upload_call :: "effect \<Rightarrow> bool" where
  "is_upload_call (UploadImageFiles fd) = True"
| "is_upload_call e = False"

fun is_mutation_call :: "effect \<Rightarrow> bool" where
  "is_mutation_call (UpdatePostMutation v) = True"
| "is_mutation_call e = False"

definition mutation_calls :: "effect list \<Rightarrow> nat" where
  "mutation_calls effs = length (filter is_mutation_call effs)"

definition upload_calls :: "effect list \<Rightarrow> nat" where
  "upload_calls effs = length (filter is_upload_call effs)"

text \<open>The events that settle a mutation.\<close>

fun is_mutation_settled :: "event \<Rightarrow> bool" where
  "is_mutation_settled (MutationSettled i res) = True"
| "is_mutation_settled ev = False"



section \<open>Sample inputs\<close>

definition photo_png :: File where
  "photo_png = \<lparr>file_name = ''a.png'', file_type = ''image/png''\<rparr>"

definition notes_txt :: File where
  "notes_txt = \<lparr>file_name = ''b.txt'', file_type = ''text/plain''\<rparr>"

definition photo_jpg :: File where
  "photo_jpg = \<lparr>file_name = ''c.jpg'', file_type = ''image/jpeg''\<rparr>"

definition sample_post :: post where
  "sample_post = \<lparr>post_title = ''Hello'', post_contents = ''first'',
                   post_imageUrls = Some [''https://cdn/x.webp'']\<rparr>"

text \<open>A page after its post has loaded and three files, two of them images, were selected.\<close>

definition sample_page :: page where
  "sample_page =
     fst (run file_name
            [QuerySettled (Inr (Some sample_post)), Render,
             SelectFiles (Some [photo_png, notes_txt, photo_jpg])]
            (init True ''7'' (Some ''al'')))"


definition sample_composer :: composer where
  "sample_composer =
     \<lparr>commentContents = ''hi'',
      parentComment = Some \<lparr>pc_id = ''c1'', pc_nickname = ''al'', pc_contents = ''hello''\<rparr>,
      commentPostId = ''7'', commentLoading = False\<rparr>"

text \<open>Two pages of a user without nickname, for whom the query is skipped.\<close>

definition blank_page :: page where
  "blank_page = (init True ''7'' None)\<lparr>contents := ''hi''\<rparr>"

definition empty_page :: page where
  "empty_page = init True ''7'' None"

section \<open>Decimal numerals and the names of the form data\<close>

lemma digit_char_inj: "d < 10 \<Longrightarrow> e < 10 \<Longrightarrow> digit_char d = digit_char e \<Longrightarrow> d = e"
proof -
  assume d: "d < 10" and e: "e < 10" and eq: "digit_char d = digit_char e"
  from eq have "of_char (char_of (48 + d) :: char) = (of_char (char_of (48 + e) :: char) :: nat)"
    by (simp add: digit_char_def)
  then have "(48 + d) mod 256 = (48 + e) mod 256"
    by (simp only: of_char_of)
  with d e show "d = e" by simp
qed

lemma string_of_nat_nonempty: "string_of_nat n \<noteq> []"
  by (subst string_of_nat.simps) simp

lemma string_of_nat_small: "n < 10 \<Longrightarrow> string_of_nat n = [digit_char n]"
  by (subst string_of_nat.simps) simp

lemma string_of_nat_big:
  "\<not> n < 10 \<Longrightarrow> string_of_nat n = string_of_nat (n div 10) @ [digit_char (n mod 10)]"
  by (subst string_of_nat.simps) simp

lemma string_of_nat_inj: "string_of_nat n = string_of_nat m \<Longrightarrow> n = m"
proof (induction n arbitrary: m rule: string_of_nat.induct)
  case (1 n)
  show ?case
  proof (cases "n < 10")
    case True
    note n = this
    show ?thesis
    proof (cases "m < 10")
      case True
      with n "1.prems" show ?thesis
        by (simp add: string_of_nat_small digit_char_inj)
    next
      case False
      with n "1.prems" string_of_nat_nonempty [of "m div 10"] show ?thesis
        by (auto simp add: string_of_nat_small string_of_nat_big)
    qed
  next
    case False
    note n = this
    show ?thesis
    proof (cases "m < 10")
      case True
      with n "1.prems" string_of_nat_nonempty [of "n div 10"] show ?thesis
        by (auto simp add: string_of_nat_small string_of_nat_big)
    next
      case False
      with n "1.prems" have a: "string_of_nat (n div 10) = string_of_nat (m div 10)"
        and b: "digit_char (n mod 10) = digit_char (m mod 10)"
        by (simp_all add: string_of_nat_big)
      from "1.IH" [OF n a] have q: "n div 10 = m div 10" .
      from b have r: "n mod 10 = m mod 10" by (rule digit_char_inj [rotated 2]) simp_all
      from q r show ?thesis by (metis div_mult_mod_eq)
    qed
  qed
qed

lemma digit_char_is_digit: "d < 10 \<Longrightarrow> is_digit (digit_char d)"
  by (simp add: is_digit_def digit_char_def)

lemma string_of_nat_digits: "list_all is_digit (string_of_nat n)"
proof (induction n rule: string_of_nat.induct)
  case (1 n)
  show ?case
  proof (cases "n < 10")
    case True
    then show ?thesis by (simp add: string_of_nat_small digit_char_is_digit)
  next
    case False
    then show ?thesis using "1.IH"
      by (simp add: string_of_nat_big digit_char_is_digit)
  qed
qed

lemma string_of_nat_not_undefined: "string_of_nat a \<noteq> ''undefined''"
proof
  assume "string_of_nat a = ''undefined''"
  with string_of_nat_digits [of a] have "is_digit CHR ''u''" by simp
  then show False by (simp add: is_digit_def)
qed

lemma string_of_nat_not_s: "string_of_nat a \<noteq> ''s''"
proof
  assume "string_of_nat a = ''s''"
  with string_of_nat_digits [of a] have "is_digit CHR ''s''" by simp
  then show False by (simp add: is_digit_def)
qed

lemma image_key_inj: "image_key i = image_key j \<Longrightarrow> i = j"
  using string_of_nat_not_undefined
  by (cases i; cases j) (auto dest: string_of_nat_inj)

lemma image_key_not_images: "image_key i \<noteq> ''images''"
  using string_of_nat_not_s by (cases i) auto

section \<open>The staging loop in closed form\<close>

lemma stage_files_closed:
  "stage_files mk fs (new, fd, n) =
     (new @ map (\<lambda>(j, f). ImageInfo (n + 2 * j) (mk f)) (enumerate 0 (image_files fs)),
      fd @ map (\<lambda>(j, f). (image_key (Some (n + 2 * j)), f)) (enumerate 0 (image_files fs)),
      n + 2 * length (image_files fs))"
proof (induction fs arbitrary: new fd n)
  case Nil
  then show ?case by (simp add: image_files_def)
next
  case (Cons f fs)
  show ?case
  proof (cases "prefix ''image/'' (file_type f)")
    case True
    have e: "enumerate (Suc 0) xs = map (\<lambda>(j, x). (Suc j, x)) (enumerate 0 xs)" for xs :: "File list"
      by (simp add: enumerate_Suc_eq apfst_def map_prod_def)
    from True show ?thesis
      by (simp add: Cons.IH image_files_def fd_append_def e comp_def case_prod_unfold)
  next
    case False
    then show ?thesis by (simp add: Cons.IH image_files_def)
  qed
qed

lemma createPreviewImages_closed:
  "formData st = Some fd \<Longrightarrow>
   createPreviewImages mk files st =
     st\<lparr>imageInfos := imageInfos st @
          map (\<lambda>(j, f). ImageInfo (imageId st + 2 * j) (mk f))
            (enumerate 0 (image_files (selection files))),
        formData := Some (fd @
          map (\<lambda>(j, f). (image_key (Some (imageId st + 2 * j)), f))
            (enumerate 0 (image_files (selection files)))),
        imageId := imageId st + 2 * length (image_files (selection files))\<rparr>"
  by (cases files)
     (auto simp add: createPreviewImages_def selection_def stage_files_closed image_files_def)

lemma createPreviewImages_no_form_data:
  "formData st = None \<Longrightarrow> createPreviewImages mk files st = st"
  by (simp add: createPreviewImages_def split: option.splits)

lemma staged_ids_append: "staged_ids (xs @ ys) = staged_ids xs @ staged_ids ys"
  by (simp add: staged_ids_def map_filter_def)

lemma staged_ids_filter:
  "staged_ids (filter (\<lambda>e. info_id e \<noteq> i) infos) = filter (\<lambda>j. Some j \<noteq> i) (staged_ids infos)"
proof (induction infos)
  case Nil
  then show ?case by (simp add: staged_ids_def map_filter_def)
next
  case (Cons e infos)
  then show ?case by (cases e) (auto simp add: staged_ids_def map_filter_def)
qed

lemma staged_ids_hosted: "staged_ids (map HostedUrl urls) = []"
  by (induction urls) (simp_all add: staged_ids_def map_filter_def)

lemma upt_shift: "[k ..< k + Suc n] = k # [Suc k ..< Suc k + n]"
  by (simp add: upt_rec)

lemma staged_ids_new:
  "staged_ids (map (\<lambda>(j, f). ImageInfo (g j) (mk f)) (enumerate k fs))
     = map g [k ..< k + length fs]"
proof (induction fs arbitrary: k)
  case Nil
  then show ?case by (simp add: staged_ids_def map_filter_def)
next
  case (Cons f fs)
  have "staged_ids (map (\<lambda>(j, f). ImageInfo (g j) (mk f)) (enumerate k (f # fs)))
          = g k # staged_ids (map (\<lambda>(j, f). ImageInfo (g j) (mk f)) (enumerate (Suc k) fs))"
    by (simp add: staged_ids_def map_filter_def)
  also have "\<dots> = g k # map g [Suc k ..< Suc k + length fs]"
    by (simp only: Cons.IH)
  also have "\<dots> = map g [k ..< k + length (f # fs)]"
    by (simp only: upt_shift list.map length_Cons)
  finally show ?case .
qed

lemma keys_new:
  "map fst (map (\<lambda>(j, f). (h j, f)) (enumerate k fs)) = map h [k ..< k + length fs]"
proof (induction fs arbitrary: k)
  case Nil
  then show ?case by simp
next
  case (Cons f fs)
  have "map fst (map (\<lambda>(j, f). (h j, f)) (enumerate k (f # fs)))
          = h k # map fst (map (\<lambda>(j, f). (h j, f)) (enumerate (Suc k) fs))"
    by simp
  also have "\<dots> = h k # map h [Suc k ..< Suc k + length fs]"
    by (simp only: Cons.IH)
  also have "\<dots> = map h [k ..< k + length (f # fs)]"
    by (simp only: upt_shift list.map length_Cons)
  finally show ?case .
qed

lemma files_new: "map snd (map (\<lambda>(j, f). (h j, f)) (enumerate k fs)) = fs"
proof -
  have "map snd (map (\<lambda>(j, f). (h j, f)) (enumerate k fs)) = map snd (enumerate k fs)"
    by (simp add: case_prod_unfold comp_def)
  then show ?thesis by simp
qed

lemma previews_new:
  "list_all2 (\<lambda>e f. \<exists>i. e = ImageInfo i (mk f))
     (map (\<lambda>(j, f). ImageInfo (g j) (mk f)) (enumerate k fs)) fs"
  by (induction fs arbitrary: k) auto

lemma sorted_new: "sorted_wrt (<) (map (\<lambda>j. n + 2 * j) [k ..< m])"
proof -
  have "sorted_wrt (<) [k ..< m]" by simp
  then have "sorted_wrt (\<lambda>a b. n + 2 * a < n + 2 * b) [k ..< m]"
    by (rule sorted_wrt_mono_rel [rotated]) simp
  then show ?thesis by (simp add: sorted_wrt_map)
qed

lemma staging_inv_createPreviewImages:
  assumes "staging_inv st" and "\<not> loading st"
  shows "staging_inv (createPreviewImages mk files st)"
proof (cases "formData st")
  case None
  with assms show ?thesis by (simp add: createPreviewImages_no_form_data)
next
  case (Some fd)
  let ?k = "length (image_files (selection files))"
  let ?new = "map (\<lambda>j. imageId st + 2 * j) [0 ..< ?k]"
  let ?st = "createPreviewImages mk files st"
  from assms(1) have keys: "map fst fd = map (\<lambda>i. image_key (Some i)) (staged_ids (imageInfos st))"
    and srt: "sorted_wrt (<) (staged_ids (imageInfos st))"
    and bnd: "\<forall>i \<in> set (staged_ids (imageInfos st)). i < imageId st"
    using Some by (simp_all add: staging_inv_def bundle_keys_def list_all_iff)
  have ids: "staged_ids (imageInfos ?st) = staged_ids (imageInfos st) @ ?new"
    using staged_ids_new [of "\<lambda>j. imageId st + 2 * j" mk 0 "image_files (selection files)"]
    by (simp add: createPreviewImages_closed [OF Some] staged_ids_append)
  have k: "bundle_keys ?st = map fst fd @ map (\<lambda>j. image_key (Some (imageId st + 2 * j))) [0 ..< ?k]"
    using keys_new [of "\<lambda>j. image_key (Some (imageId st + 2 * j))" 0 "image_files (selection files)"]
    by (simp add: createPreviewImages_closed [OF Some] bundle_keys_def)
  have c: "imageId ?st = imageId st + 2 * ?k" and l: "loading ?st = loading st"
    by (simp_all add: createPreviewImages_closed [OF Some])
  have 1: "bundle_keys ?st = map (\<lambda>i. image_key (Some i)) (staged_ids (imageInfos ?st))"
    by (simp add: k ids keys comp_def)
  have 2: "sorted_wrt (<) (staged_ids (imageInfos ?st))"
    using srt bnd sorted_new [of "imageId st" 0 ?k]
    by (auto simp add: ids sorted_wrt_append)
  have 3: "list_all (\<lambda>i. i < imageId ?st) (staged_ids (imageInfos ?st))"
    using bnd by (auto simp add: ids c list_all_iff)
  from 1 2 3 assms(2) show ?thesis by (simp add: staging_inv_def l)
qed

lemma staging_inv_deletePreviewImage:
  assumes "staging_inv st"
  shows "staging_inv (deletePreviewImage i st)"
proof (cases "formData st")
  case None
  with assms show ?thesis by (simp add: deletePreviewImage_def)
next
  case (Some fd)
  let ?st = "deletePreviewImage i st"
  from assms have keys: "map fst fd = map (\<lambda>i. image_key (Some i)) (staged_ids (imageInfos st))"
    and srt: "sorted_wrt (<) (staged_ids (imageInfos st))"
    and bnd: "\<forall>i \<in> set (staged_ids (imageInfos st)). i < imageId st"
    and ld: "loading st \<longrightarrow> imageInfos st = []"
    using Some by (simp_all add: staging_inv_def bundle_keys_def list_all_iff)
  have ids: "staged_ids (imageInfos ?st) = filter (\<lambda>j. Some j \<noteq> i) (staged_ids (imageInfos st))"
    by (simp add: deletePreviewImage_def Some staged_ids_filter)
  have "bundle_keys ?st = filter (\<lambda>k. k \<noteq> image_key i) (map fst fd)"
    by (simp add: deletePreviewImage_def Some bundle_keys_def fd_delete_def filter_map comp_def)
  also have "\<dots> = map (\<lambda>i. image_key (Some i))
                      (filter (\<lambda>j. image_key (Some j) \<noteq> image_key i) (staged_ids (imageInfos st)))"
    by (simp add: keys filter_map comp_def)
  also have "(\<lambda>j. image_key (Some j) \<noteq> image_key i) = (\<lambda>j. Some j \<noteq> i)"
    using image_key_inj by blast
  finally have 1: "bundle_keys ?st = map (\<lambda>i. image_key (Some i)) (staged_ids (imageInfos ?st))"
    by (simp add: ids)
  have 2: "sorted_wrt (<) (staged_ids (imageInfos ?st))"
    using srt by (simp add: ids sorted_wrt_filter)
  have 3: "list_all (\<lambda>i. i < imageId ?st) (staged_ids (imageInfos ?st))"
    using bnd unfolding ids list_all_iff by (simp add: deletePreviewImage_def Some)
  have 4: "loading ?st \<longrightarrow> imageInfos ?st = []"
    using ld by (simp add: deletePreviewImage_def Some)
  from 1 2 3 4 show ?thesis by (simp add: staging_inv_def)
qed

section \<open>Staging keeps images only\<close>

lemma createPreviewImages_once:
  assumes "formData st \<noteq> None"
  shows "formData (createPreviewImages mk files st) \<noteq> None
    \<and> (\<exists>new. imageInfos (createPreviewImages mk files st) = imageInfos st @ new
          \<and> list_all2 (\<lambda>e f. \<exists>i. e = ImageInfo i (mk f)) new (image_files (selection files)))
    \<and> bundle_files (createPreviewImages mk files st)
         = bundle_files st @ image_files (selection files)"
proof -
  from assms obtain fd where fd: "formData st = Some fd" by auto
  show ?thesis
    using previews_new [of mk "\<lambda>j. imageId st + 2 * j" 0 "image_files (selection files)"]
      files_new [of "\<lambda>j. image_key (Some (imageId st + 2 * j))" 0 "image_files (selection files)"]
    by (simp add: createPreviewImages_closed [OF fd] bundle_files_def fd)
qed

lemma createPreviewImages_fold:
  "formData st \<noteq> None \<Longrightarrow>
   \<exists>new. imageInfos (fold (createPreviewImages mk) calls st) = imageInfos st @ new
     \<and> list_all2 (\<lambda>e f. \<exists>i. e = ImageInfo i (mk f)) new
          (concat (map (\<lambda>files. image_files (selection files)) calls))
     \<and> bundle_files (fold (createPreviewImages mk) calls st)
          = bundle_files st @ concat (map (\<lambda>files. image_files (selection files)) calls)"
proof (induction calls arbitrary: st)
  case Nil
  then show ?case by simp
next
  case (Cons files calls)
  let ?st = "createPreviewImages mk files st"
  let ?Q = "\<lambda>e f. \<exists>i. e = ImageInfo i (mk f)"
  let ?rest = "concat (map (\<lambda>files. image_files (selection files)) calls)"
  from createPreviewImages_once [OF Cons.prems, of mk files]
  obtain new1 where fd: "formData ?st \<noteq> None"
    and i1: "imageInfos ?st = imageInfos st @ new1"
    and q1: "list_all2 ?Q new1 (image_files (selection files))"
    and b1: "bundle_files ?st = bundle_files st @ image_files (selection files)"
    by blast
  from Cons.IH [OF fd]
  obtain new2 where i2: "imageInfos (fold (createPreviewImages mk) calls ?st) = imageInfos ?st @ new2"
    and q2: "list_all2 ?Q new2 ?rest"
    and b2: "bundle_files (fold (createPreviewImages mk) calls ?st) = bundle_files ?st @ ?rest"
    by blast
  have "imageInfos (fold (createPreviewImages mk) (files # calls) st) = imageInfos st @ (new1 @ new2)"
    by (simp add: i2 i1)
  moreover have "list_all2 ?Q (new1 @ new2) (concat (map (\<lambda>files. image_files (selection files)) (files # calls)))"
    using q1 q2 by (simp add: list_all2_appendI)
  moreover have "bundle_files (fold (createPreviewImages mk) (files # calls) st)
      = bundle_files st @ concat (map (\<lambda>files. image_files (selection files)) (files # calls))"
    by (simp add: b2 b1)
  ultimately show ?case by blast
qed

text \<open>
  Claim C4. Whatever the sequence of file selections handed to \<open>createPreviewImages\<close>,
  mixing image files and others, the previews it adds are one for each image file, in
  the order of the files and with the object URL of the file, so that their number is
  the number of image files over all the calls; the files added to the form data are
  these image files and no other; a file of another type is passed over without any
  error; a null or empty selection leaves the state as it is. The page holds a
  \<open>FormData\<close>, as it does in every browser.
\<close>

theorem stage_only_images:
  assumes "formData st \<noteq> None"
  shows "\<exists>new. imageInfos (fold (createPreviewImages mk) calls st) = imageInfos st @ new
     \<and> list_all2 (\<lambda>e f. \<exists>i. e = ImageInfo i (mk f)) new
          (concat (map (\<lambda>files. image_files (selection files)) calls))
     \<and> length new = length (concat (map (\<lambda>files. image_files (selection files)) calls))
     \<and> bundle_files (fold (createPreviewImages mk) calls st)
          = bundle_files st @ concat (map (\<lambda>files. image_files (selection files)) calls)
     \<and> createPreviewImages mk None st = st
     \<and> createPreviewImages mk (Some []) st = st"
proof -
  from createPreviewImages_fold [OF assms, of mk calls]
  obtain new where a: "imageInfos (fold (createPreviewImages mk) calls st) = imageInfos st @ new"
    and b: "list_all2 (\<lambda>e f. \<exists>i. e = ImageInfo i (mk f)) new
          (concat (map (\<lambda>files. image_files (selection files)) calls))"
    and c: "bundle_files (fold (createPreviewImages mk) calls st)
          = bundle_files st @ concat (map (\<lambda>files. image_files (selection files)) calls)"
    by blast
  from b have d: "length new = length (concat (map (\<lambda>files. image_files (selection files)) calls))"
    by (rule list_all2_lengthD)
  have e: "createPreviewImages mk None st = st" "createPreviewImages mk (Some []) st = st"
    by (simp_all add: createPreviewImages_def)
  from a b c d e show ?thesis by blast
qed

theorem stage_only_images_witness:
  "formData (init True ''7'' (Some ''al'')) \<noteq> None
   \<and> imageInfos (fold (createPreviewImages file_name) [Some [photo_png, notes_txt], None, Some [photo_jpg]]
        (init True ''7'' (Some ''al'')))
       = [ImageInfo 0 ''a.png'', ImageInfo 2 ''c.jpg'']
   \<and> bundle_files (fold (createPreviewImages file_name) [Some [photo_png, notes_txt], None, Some [photo_jpg]]
        (init True ''7'' (Some ''al''))) = [photo_png, photo_jpg]"
proof -
  have h: "formData (init True ''7'' (Some ''al'')) \<noteq> None" by (simp add: init_def)
  have i: "imageInfos (init True ''7'' (Some ''al'')) = []"
    and b: "bundle_files (init True ''7'' (Some ''al'')) = []"
    by (simp_all add: init_def bundle_files_def)
  have s: "concat (map (\<lambda>files. image_files (selection files)) [Some [photo_png, notes_txt], None, Some [photo_jpg]])
             = [photo_png, photo_jpg]"
    by (simp add: image_files_def selection_def photo_png_def notes_txt_def photo_jpg_def)
  from stage_only_images [OF h, of file_name "[Some [photo_png, notes_txt], None, Some [photo_jpg]]"]
  obtain new where a: "imageInfos (fold (createPreviewImages file_name) [Some [photo_png, notes_txt], None, Some [photo_jpg]]
        (init True ''7'' (Some ''al''))) = new"
    and q: "list_all2 (\<lambda>e f. \<exists>i. e = ImageInfo i (file_name f)) new [photo_png, photo_jpg]"
    and c: "bundle_files (fold (createPreviewImages file_name) [Some [photo_png, notes_txt], None, Some [photo_jpg]]
        (init True ''7'' (Some ''al''))) = [photo_png, photo_jpg]"
    unfolding s i b by auto
  have "imageInfos (fold (createPreviewImages file_name) [Some [photo_png, notes_txt], None, Some [photo_jpg]]
        (init True ''7'' (Some ''al''))) = [ImageInfo 0 ''a.png'', ImageInfo 2 ''c.jpg'']"
    by (simp add: createPreviewImages_def init_def photo_png_def notes_txt_def photo_jpg_def fd_append_def)
  with h c show ?thesis by blast
qed

section \<open>The invariants of a session\<close>

lemma staging_inv_keep:
  "imageInfos st' = imageInfos st \<Longrightarrow> formData st' = formData st \<Longrightarrow>
   imageId st' = imageId st \<Longrightarrow> loading st' = loading st \<Longrightarrow>
   staging_inv st \<Longrightarrow> staging_inv st'"
  by (simp add: staging_inv_def bundle_keys_def)

lemma updatePost_staging:
  "imageInfos (fst (updatePost input st)) = imageInfos st
   \<and> formData (fst (updatePost input st)) = formData st
   \<and> imageId (fst (updatePost input st)) = imageId st
   \<and> loading (fst (updatePost input st)) = loading st
   \<and> view (fst (updatePost input st)) = view st"
  by (simp add: updatePost_def Let_def split: option.splits)

lemma submit_staging:
  "imageInfos (fst (submit st)) = imageInfos st
   \<and> formData (fst (submit st)) = formData st
   \<and> imageId (fst (submit st)) = imageId st
   \<and> loading (fst (submit st)) = loading st
   \<and> view (fst (submit st)) = view st"
proof (cases "submitDisabled (view st) \<or> \<not> isEmpty (validate st)")
  case True
  then show ?thesis
    by (auto simp add: submit_def handleSubmit_def Let_def)
next
  case False
  then have "fst (submit st)
      = fst (updatePost \<lparr>in_title = title st, in_contents = contents st\<rparr>
               (st\<lparr>errors := validate st, isSubmitted := True,
                   nextIdent := nextIdent st + 2\<rparr>))"
    by (simp add: submit_def handleSubmit_def Let_def)
  then show ?thesis
    using updatePost_staging [of "\<lparr>in_title = title st, in_contents = contents st\<rparr>"
        "st\<lparr>errors := validate st, isSubmitted := True, nextIdent := nextIdent st + 2\<rparr>"]
    by simp
qed

lemma uploadSettled_staging:
  "imageInfos (fst (uploadSettled i res st)) = imageInfos st
   \<and> formData (fst (uploadSettled i res st)) = formData st
   \<and> imageId (fst (uploadSettled i res st)) = imageId st
   \<and> loading (fst (uploadSettled i res st)) = loading st
   \<and> view (fst (uploadSettled i res st)) = view st"
  by (simp add: uploadSettled_def split: task.splits sum.splits)

lemma mutationSettled_staging:
  "imageInfos (fst (mutationSettled i res st)) = imageInfos st
   \<and> formData (fst (mutationSettled i res st)) = formData st
   \<and> imageId (fst (mutationSettled i res st)) = imageId st
   \<and> loading (fst (mutationSettled i res st)) = loading st
   \<and> view (fst (mutationSettled i res st)) = view st"
  by (simp add: mutationSettled_def split: task.splits)

lemma revalidate_staging:
  "imageInfos (revalidate f st) = imageInfos st
   \<and> formData (revalidate f st) = formData st
   \<and> imageId (revalidate f st) = imageId st
   \<and> loading (revalidate f st) = loading st
   \<and> view (revalidate f st) = view st
   \<and> inflight (revalidate f st) = inflight st
   \<and> isPostUpdateLoading (revalidate f st) = isPostUpdateLoading st"
  by (simp add: revalidate_def split: field.splits)

lemma render_staging:
  "imageInfos (fst (render st)) = imageInfos st
   \<and> formData (fst (render st)) = formData st
   \<and> imageId (fst (render st)) = imageId st
   \<and> loading (fst (render st)) = loading st
   \<and> inflight (fst (render st)) = inflight st
   \<and> isPostUpdateLoading (fst (render st)) = isPostUpdateLoading st"
  by (simp add: render_def)

lemma staging_inv_query:
  assumes "staging_inv st"
  shows "staging_inv (fst (step mk (QuerySettled res) st))"
proof (cases "loading st")
  case False
  with assms show ?thesis by simp
next
  case True
  with assms have e: "imageInfos st = []" and k: "bundle_keys st = []"
    by (simp_all add: staging_inv_def staged_ids_def map_filter_def)
  show ?thesis
  proof (cases res)
    case (Inl err)
    with True e k show ?thesis
      by (simp add: staging_inv_def bundle_keys_def staged_ids_def map_filter_def)
  next
    case (Inr p)
    have "staged_ids (imageInfos (postQueryCompleted p st)) = []"
      using e staged_ids_hosted
      by (simp add: postQueryCompleted_def Let_def staged_ids_def map_filter_def
          split: option.splits)
    moreover have "bundle_keys ((postQueryCompleted p st)\<lparr>loading := False\<rparr>) = []"
      using k by (simp add: postQueryCompleted_def Let_def bundle_keys_def split: option.splits)
    ultimately show ?thesis using True Inr
      by (simp add: staging_inv_def)
  qed
qed

lemma no_images: "staging_inv st \<Longrightarrow> \<not> has_images st"
proof
  assume inv: "staging_inv st" and h: "has_images st"
  from h have "''images'' \<in> set (bundle_keys st)"
    by (simp add: has_images_def bundle_keys_def fd_has_def split: option.splits)
  with inv obtain i where "''images'' = image_key (Some i)"
    by (auto simp add: staging_inv_def simp del: image_key.simps)
  with image_key_not_images [of "Some i"] show False by simp
qed

lemma validate_empty:
  "isEmpty (validate st) = (title st \<noteq> [] \<and> contents st \<noteq> [])"
  by (simp add: isEmpty_def validate_def required_def)

lemma submit_disabled: "submitDisabled (view st) \<Longrightarrow> submit st = (st, [])"
  by (simp add: submit_def)

lemma submit_invalid:
  assumes "\<not> submitDisabled (view st)" and "title st = [] \<or> contents st = []"
  shows "submit st
    = (st\<lparr>errors := validate st, isSubmitted := True, nextIdent := nextIdent st + 2\<rparr>, [])"
proof -
  from assms(2) have v: "\<not> isEmpty (validate st)" by (simp add: validate_empty)
  from assms(1) v show ?thesis
    by (simp add: submit_def handleSubmit_def Let_def)
qed

lemma handler_valid:
  assumes "title st \<noteq> []" and "contents st \<noteq> []" and "\<not> has_images st"
  shows "handleSubmit updatePost st =
     (st\<lparr>errors := validate st, isSubmitted := True, nextIdent := nextIdent st + 2,
         isPostUpdateLoading := True, inflight := inflight st @ [AwaitMutation]\<rparr>,
      [UpdatePostMutation \<lparr>input_id = postId st, input_title = title st,
         input_contents = contents st, input_imageUrls = None\<rparr>])"
proof -
  from assms(1,2) have v: "isEmpty (validate st)" by (simp add: validate_empty)
  from assms(3) have h: "\<not> has_images (st\<lparr>errors := validate st, isSubmitted := True,
      nextIdent := nextIdent st + 2, isPostUpdateLoading := True\<rparr>)"
    by (simp add: has_images_def)
  from v h show ?thesis
    by (simp add: handleSubmit_def updatePost_def Let_def)
qed

lemma submit_valid:
  assumes "\<not> submitDisabled (view st)" and "title st \<noteq> []" and "contents st \<noteq> []"
    and "\<not> has_images st"
  shows "submit st =
     (st\<lparr>errors := validate st, isSubmitted := True, nextIdent := nextIdent st + 2,
         isPostUpdateLoading := True, inflight := inflight st @ [AwaitMutation]\<rparr>,
      [UpdatePostMutation \<lparr>input_id = postId st, input_title = title st,
         input_contents = contents st, input_imageUrls = None\<rparr>])"
  using assms(1) by (simp add: submit_def handler_valid [OF assms(2,3,4)])

lemma submit_inflight:
  assumes "staging_inv st" and "list_all (\<lambda>t. t = AwaitMutation) (inflight st)"
  shows "list_all (\<lambda>t. t = AwaitMutation) (inflight (fst (submit st)))"
proof (cases "submitDisabled (view st)")
  case True
  with assms(2) show ?thesis by (simp add: submit_disabled)
next
  case False
  note en = this
  show ?thesis
  proof (cases "title st = [] \<or> contents st = []")
    case True
    with assms(2) show ?thesis by (simp add: submit_invalid [OF en True])
  next
    case False
    then have "title st \<noteq> []" "contents st \<noteq> []" by simp_all
    with assms(2) show ?thesis
      by (simp add: submit_valid [OF en _ _ no_images [OF assms(1)]])
  qed
qed

lemma session_inv_step:
  assumes "session_inv st"
  shows "session_inv (fst (step mk ev st))"
proof -
  from assms have s: "staging_inv st"
    and v: "loading st \<longrightarrow> v_loading (view st)"
    and f: "list_all (\<lambda>t. t = AwaitMutation) (inflight st)"
    by (simp_all add: session_inv_def)
  show ?thesis
  proof (cases ev)
    case (QuerySettled res)
    have "staging_inv (fst (step mk (QuerySettled res) st))" using s by (rule staging_inv_query)
    with QuerySettled v f show ?thesis
      by (simp add: session_inv_def postQueryCompleted_def Let_def
          split: sum.splits option.splits)
  next
    case (SelectFiles files)
    show ?thesis
    proof (cases "inputDisabled (view st)")
      case True
      with SelectFiles assms show ?thesis by simp
    next
      case False
      with v have l: "\<not> loading st" by (auto simp add: inputDisabled_def)
      have "staging_inv (createPreviewImages mk files st)"
        using s l by (rule staging_inv_createPreviewImages)
      with SelectFiles False v f l show ?thesis
        by (simp add: session_inv_def)
           (simp add: createPreviewImages_def split: option.splits prod.splits)
    qed
  next
    case (ClickDelete i)
    have "staging_inv (deletePreviewImage i st)" using s by (rule staging_inv_deletePreviewImage)
    with ClickDelete v f show ?thesis
      by (simp add: session_inv_def) (simp add: deletePreviewImage_def split: option.splits)
  next
    case (TypeText fl t)
    with assms show ?thesis
      by (cases fl) (simp_all add: session_inv_def staging_inv_def bundle_keys_def)
  next
    case (Blur fl)
    have "staging_inv (revalidate fl st)"
      using revalidate_staging [of fl st] by (intro staging_inv_keep [OF _ _ _ _ s]) simp_all
    with Blur assms revalidate_staging [of fl st] show ?thesis
      by (simp add: session_inv_def)
  next
    case Submit
    have "staging_inv (fst (submit st))"
      using submit_staging [of st] by (intro staging_inv_keep [OF _ _ _ _ s]) simp_all
    with Submit v submit_staging [of st] submit_inflight [OF s f] show ?thesis
      by (simp add: session_inv_def)
  next
    case (UploadSettled i res)
    have "staging_inv (fst (uploadSettled i res st))"
      using uploadSettled_staging [of i res st]
      by (intro staging_inv_keep [OF _ _ _ _ s]) simp_all
    moreover have "list_all (\<lambda>t. t = AwaitMutation) (inflight (fst (uploadSettled i res st)))"
      using f by (auto simp add: uploadSettled_def list_all_length split: task.splits)
    ultimately show ?thesis
      using UploadSettled v uploadSettled_staging [of i res st]
      by (simp add: session_inv_def)
  next
    case (MutationSettled i res)
    have "staging_inv (fst (mutationSettled i res st))"
      using mutationSettled_staging [of i res st]
      by (intro staging_inv_keep [OF _ _ _ _ s]) simp_all
    moreover have "list_all (\<lambda>t. t = AwaitMutation) (inflight (fst (mutationSettled i res st)))"
      using f
      by (auto simp add: mutationSettled_def remove_nth_def list_all_iff
          split: task.splits dest: in_set_takeD in_set_dropD)
    ultimately show ?thesis
      using MutationSettled v mutationSettled_staging [of i res st]
      by (simp add: session_inv_def)
  next
    case Render
    have "staging_inv (fst (render st))"
      using render_staging [of st] by (intro staging_inv_keep [OF _ _ _ _ s]) simp_all
    with Render f render_staging [of st] show ?thesis
      by (simp add: session_inv_def) (simp add: render_def)
  qed
qed

lemma staging_inv_init: "staging_inv (init hasFormData pid nickname)"
  by (simp add: staging_inv_def init_def bundle_keys_def staged_ids_def map_filter_def)

lemma session_inv_init: "session_inv (init hasFormData pid nickname)"
  using staging_inv_init [of hasFormData pid nickname]
  by (simp add: session_inv_def) (simp add: init_def)

lemma fst_run_Cons: "fst (run mk (ev # evs) st) = fst (run mk evs (fst (step mk ev st)))"
  by (simp split: prod.splits)

lemma snd_run_Cons:
  "snd (run mk (ev # evs) st) = snd (step mk ev st) @ snd (run mk evs (fst (step mk ev st)))"
  by (simp split: prod.splits)

lemma session_inv_run: "session_inv st \<Longrightarrow> session_inv (fst (run mk evs st))"
proof (induction evs arbitrary: st)
  case Nil
  then show ?case by simp
next
  case (Cons ev evs)
  from Cons.prems have "session_inv (fst (step mk ev st))" by (rule session_inv_step)
  then have "session_inv (fst (run mk evs (fst (step mk ev st))))" by (rule Cons.IH)
  then show ?case by (simp only: fst_run_Cons)
qed

lemma session_inv_reached: "session_inv (fst (run mk evs (init hasFormData pid nickname)))"
  using session_inv_init by (rule session_inv_run)

lemma staging_inv_reached: "staging_inv (fst (run mk evs (init hasFormData pid nickname)))"
  using session_inv_reached [of mk evs hasFormData pid nickname] by (simp add: session_inv_def)

section \<open>Removing a staged image\<close>

lemma deletePreviewImage_idem:
  "deletePreviewImage i (deletePreviewImage i st) = deletePreviewImage i st"
  by (simp add: deletePreviewImage_def fd_delete_def split: option.splits)

lemma length_filter_one:
  "distinct xs \<Longrightarrow> x \<in> set xs \<Longrightarrow> Suc (length (filter (\<lambda>y. y \<noteq> x) xs)) = length xs"
proof (induction xs)
  case Nil
  then show ?case by simp
next
  case (Cons a xs)
  show ?case
  proof (cases "a = x")
    case True
    with Cons.prems have "x \<notin> set xs" by simp
    then have "filter (\<lambda>y. y \<noteq> x) xs = xs" by (auto simp add: filter_id_conv)
    with True show ?thesis by simp
  next
    case False
    with Cons show ?thesis by simp
  qed
qed

lemma length_previews:
  "length infos = length (staged_ids infos) + length (filter (\<lambda>e. info_id e = None) infos)"
proof (induction infos)
  case Nil
  then show ?case by (simp add: staged_ids_def map_filter_def)
next
  case (Cons e infos)
  then show ?case by (cases e) (simp_all add: staged_ids_def map_filter_def)
qed

lemma hosted_kept:
  "filter (\<lambda>e. info_id e = None) (filter (\<lambda>e. info_id e \<noteq> Some i) infos)
     = filter (\<lambda>e. info_id e = None) infos"
  by (induction infos) auto

lemma absent_kept:
  "i \<notin> set (staged_ids infos) \<Longrightarrow> filter (\<lambda>e. info_id e \<noteq> Some i) infos = infos"
proof (induction infos)
  case Nil
  then show ?case by simp
next
  case (Cons e infos)
  then show ?case by (cases e) (simp_all add: staged_ids_def map_filter_def)
qed

lemma sorted_ids_distinct: "sorted_wrt (<) (xs :: nat list) \<Longrightarrow> distinct xs"
  by (simp add: strict_sorted_iff)

lemma deletePreviewImage_facts:
  assumes "staging_inv st"
  shows "staging_inv (deletePreviewImage (Some i) st)"
    and "staged_ids (imageInfos (deletePreviewImage (Some i) st))
           = filter (\<lambda>j. j \<noteq> i) (staged_ids (imageInfos st))"
    and "bundle_keys (deletePreviewImage (Some i) st)
           = map (\<lambda>j. image_key (Some j)) (filter (\<lambda>j. j \<noteq> i) (staged_ids (imageInfos st)))"
    and "filter (\<lambda>e. info_id e \<noteq> Some i) (imageInfos (deletePreviewImage (Some i) st))
           = filter (\<lambda>e. info_id e \<noteq> Some i) (imageInfos st)"
    and "filter (\<lambda>e. fst e \<noteq> image_key (Some i)) (bundle_entries (deletePreviewImage (Some i) st))
           = filter (\<lambda>e. fst e \<noteq> image_key (Some i)) (bundle_entries st)"
    and "i \<in> set (staged_ids (imageInfos st)) \<Longrightarrow>
           Suc (length (imageInfos (deletePreviewImage (Some i) st))) = length (imageInfos st)
           \<and> Suc (length (bundle_entries (deletePreviewImage (Some i) st)))
                = length (bundle_entries st)"
    and "i \<notin> set (staged_ids (imageInfos st)) \<Longrightarrow> deletePreviewImage (Some i) st = st"
    and "deletePreviewImage (Some i) (deletePreviewImage (Some i) st)
           = deletePreviewImage (Some i) st"
proof -
  let ?st = "deletePreviewImage (Some i) st"
  show inv: "staging_inv ?st" using assms by (rule staging_inv_deletePreviewImage)
  show ids: "staged_ids (imageInfos ?st) = filter (\<lambda>j. j \<noteq> i) (staged_ids (imageInfos st))"
  proof (cases "formData st")
    case None
    with assms have "staged_ids (imageInfos st) = []"
      by (simp add: staging_inv_def bundle_keys_def)
    with None show ?thesis by (simp add: deletePreviewImage_def)
  next
    case (Some fd)
    then show ?thesis by (simp add: deletePreviewImage_def staged_ids_filter)
  qed
  from inv show keys: "bundle_keys ?st
      = map (\<lambda>j. image_key (Some j)) (filter (\<lambda>j. j \<noteq> i) (staged_ids (imageInfos st)))"
    by (simp add: staging_inv_def ids)
  show "filter (\<lambda>e. info_id e \<noteq> Some i) (imageInfos ?st)
           = filter (\<lambda>e. info_id e \<noteq> Some i) (imageInfos st)"
    by (simp add: deletePreviewImage_def split: option.splits)
  show "filter (\<lambda>e. fst e \<noteq> image_key (Some i)) (bundle_entries ?st)
           = filter (\<lambda>e. fst e \<noteq> image_key (Some i)) (bundle_entries st)"
    by (simp add: deletePreviewImage_def bundle_entries_def fd_delete_def split: option.splits)
  from assms have d: "distinct (staged_ids (imageInfos st))"
    by (simp add: staging_inv_def sorted_ids_distinct)
  have len: "length (bundle_entries s) = length (bundle_keys s)" for s
    by (simp add: bundle_entries_def bundle_keys_def split: option.splits)
  from assms have k0: "bundle_keys st = map (\<lambda>j. image_key (Some j)) (staged_ids (imageInfos st))"
    by (simp add: staging_inv_def)
  show "Suc (length (imageInfos ?st)) = length (imageInfos st)
           \<and> Suc (length (bundle_entries ?st)) = length (bundle_entries st)"
    if "i \<in> set (staged_ids (imageInfos st))"
  proof
    from that assms obtain fd where fd: "formData st = Some fd"
      by (cases "formData st") (auto simp add: staging_inv_def bundle_keys_def)
    have "length (imageInfos ?st)
        = length (staged_ids (imageInfos ?st))
          + length (filter (\<lambda>e. info_id e = None) (imageInfos ?st))"
      by (rule length_previews)
    also have "filter (\<lambda>e. info_id e = None) (imageInfos ?st)
        = filter (\<lambda>e. info_id e = None) (imageInfos st)"
    proof -
      have "imageInfos ?st = filter (\<lambda>e. info_id e \<noteq> Some i) (imageInfos st)"
        by (simp add: deletePreviewImage_def fd)
      then show ?thesis by (simp only: hosted_kept)
    qed
    finally have "Suc (length (imageInfos ?st))
        = Suc (length (filter (\<lambda>j. j \<noteq> i) (staged_ids (imageInfos st))))
          + length (filter (\<lambda>e. info_id e = None) (imageInfos st))"
      by (simp add: ids)
    also have "\<dots> = length (staged_ids (imageInfos st))
          + length (filter (\<lambda>e. info_id e = None) (imageInfos st))"
      by (simp only: length_filter_one [OF d that])
    also have "\<dots> = length (imageInfos st)"
      by (rule length_previews [symmetric])
    finally show "Suc (length (imageInfos ?st)) = length (imageInfos st)" .
    show "Suc (length (bundle_entries ?st)) = length (bundle_entries st)"
      using length_filter_one [OF d that] by (simp add: len keys k0)
  qed
  show "?st = st" if "i \<notin> set (staged_ids (imageInfos st))"
  proof (cases "formData st")
    case None
    then show ?thesis by (simp add: deletePreviewImage_def)
  next
    case (Some fd)
    from that have b: "filter (\<lambda>prev. info_id prev \<noteq> Some i) (imageInfos st) = imageInfos st"
      by (rule absent_kept)
    from that k0 Some have "image_key (Some i) \<notin> set (map fst fd)"
      using string_of_nat_inj by (auto simp add: bundle_keys_def)
    then have c: "fd_delete (image_key (Some i)) fd = fd"
      unfolding fd_delete_def filter_id_conv by force
    have "?st = st\<lparr>formData := Some fd, imageInfos := imageInfos st\<rparr>"
      by (simp only: deletePreviewImage_def Some option.case b c)
    also have "\<dots> = st" by (simp add: Some [symmetric])
    finally show ?thesis .
  qed
  show "deletePreviewImage (Some i) ?st = ?st" by (rule deletePreviewImage_idem)
qed

text \<open>
  Claim C6. In every state of a session and for every identifier,
  \<open>deletePreviewImage\<close> takes the identifier out of the previews and its name out of the
  form data together: afterwards the names of the form data are again those of the
  staged previews, neither holds the identifier, and when it was staged each of the two
  has lost exactly one entry. Every other preview and every other entry of the form data
  stays, in its order. An identifier that is not staged leaves the state as it is, and
  so does a second removal of the same identifier.
\<close>

theorem unstage_both_or_neither:
  assumes "staging_inv st"
  shows "staging_inv (deletePreviewImage (Some i) st)
    \<and> staged_ids (imageInfos (deletePreviewImage (Some i) st))
         = filter (\<lambda>j. j \<noteq> i) (staged_ids (imageInfos st))
    \<and> bundle_keys (deletePreviewImage (Some i) st)
         = map (\<lambda>j. image_key (Some j)) (filter (\<lambda>j. j \<noteq> i) (staged_ids (imageInfos st)))
    \<and> filter (\<lambda>e. info_id e \<noteq> Some i) (imageInfos (deletePreviewImage (Some i) st))
         = filter (\<lambda>e. info_id e \<noteq> Some i) (imageInfos st)
    \<and> filter (\<lambda>e. fst e \<noteq> image_key (Some i)) (bundle_entries (deletePreviewImage (Some i) st))
         = filter (\<lambda>e. fst e \<noteq> image_key (Some i)) (bundle_entries st)
    \<and> (i \<in> set (staged_ids (imageInfos st)) \<longrightarrow>
         Suc (length (imageInfos (deletePreviewImage (Some i) st))) = length (imageInfos st)
         \<and> Suc (length (bundle_entries (deletePreviewImage (Some i) st)))
              = length (bundle_entries st))
    \<and> (i \<notin> set (staged_ids (imageInfos st)) \<longrightarrow> deletePreviewImage (Some i) st = st)
    \<and> deletePreviewImage (Some i) (deletePreviewImage (Some i) st)
         = deletePreviewImage (Some i) st"
  using deletePreviewImage_facts [OF assms, of i] by blast

section \<open>Fresh identifiers\<close>

lemma step_counter:
  "imageId st \<le> imageId (fst (step mk ev st))"
proof (cases ev)
  case (QuerySettled res)
  then show ?thesis
    by (simp add: postQueryCompleted_def Let_def split: sum.splits option.splits)
next
  case (SelectFiles files)
  show ?thesis
  proof (cases "formData st")
    case None
    with SelectFiles show ?thesis by (simp add: createPreviewImages_no_form_data)
  next
    case (Some fd)
    with SelectFiles show ?thesis by (simp add: createPreviewImages_closed [OF Some])
  qed
next
  case (ClickDelete i)
  then show ?thesis by (simp add: deletePreviewImage_def split: option.splits)
next
  case (TypeText f v)
  then show ?thesis by (cases f) simp_all
next
  case (Blur f)
  with revalidate_staging [of f st] show ?thesis by simp
next
  case Submit
  with submit_staging [of st] show ?thesis by simp
next
  case (UploadSettled i res)
  with uploadSettled_staging [of i res st] show ?thesis by simp
next
  case (MutationSettled i res)
  with mutationSettled_staging [of i res st] show ?thesis by simp
next
  case Render
  with render_staging [of st] show ?thesis by simp
qed

lemma step_new_ids:
  "sorted_wrt (<) (staged_ids (drop (length (imageInfos st))
       (imageInfos (fst (step mk (SelectFiles files) st)))))
   \<and> (\<forall>i \<in> set (staged_ids (drop (length (imageInfos st))
       (imageInfos (fst (step mk (SelectFiles files) st))))).
         imageId st \<le> i \<and> i < imageId (fst (step mk (SelectFiles files) st)))"
proof (cases "inputDisabled (view st) \<or> formData st = None")
  case True
  then show ?thesis
    by (auto simp add: createPreviewImages_no_form_data staged_ids_def map_filter_def)
next
  case False
  then obtain fd where fd: "formData st = Some fd" by auto
  let ?k = "length (image_files (selection files))"
  have "staged_ids (drop (length (imageInfos st))
       (imageInfos (fst (step mk (SelectFiles files) st))))
     = map (\<lambda>j. imageId st + 2 * j) [0 ..< ?k]"
    using False
      staged_ids_new [of "\<lambda>j. imageId st + 2 * j" mk 0 "image_files (selection files)"]
    by (simp add: createPreviewImages_closed [OF fd])
  moreover have "imageId (fst (step mk (SelectFiles files) st)) = imageId st + 2 * ?k"
    using False by (simp add: createPreviewImages_closed [OF fd])
  ultimately show ?thesis
    using sorted_new [of "imageId st" 0 ?k] by auto
qed

lemma assigned_ids_increase:
  "sorted_wrt (<) (assigned_ids mk evs st) \<and> (\<forall>i \<in> set (assigned_ids mk evs st). imageId st \<le> i)"
proof (induction evs arbitrary: st)
  case Nil
  then show ?case by simp
next
  case (Cons ev evs)
  let ?st = "fst (step mk ev st)"
  let ?new = "case ev of SelectFiles files \<Rightarrow>
                staged_ids (drop (length (imageInfos st)) (imageInfos ?st)) | _ \<Rightarrow> []"
  have a: "assigned_ids mk (ev # evs) st = ?new @ assigned_ids mk evs ?st"
    by (simp add: Let_def)
  have n: "sorted_wrt (<) ?new \<and> (\<forall>i \<in> set ?new. imageId st \<le> i \<and> i < imageId ?st)"
    using step_new_ids [of st mk] by (cases ev) simp_all
  from Cons.IH [of ?st] have r: "sorted_wrt (<) (assigned_ids mk evs ?st)"
    and b: "\<forall>i \<in> set (assigned_ids mk evs ?st). imageId ?st \<le> i"
    by simp_all
  have c: "imageId st \<le> imageId ?st" by (rule step_counter)
  have "sorted_wrt (<) (?new @ assigned_ids mk evs ?st)"
    using n r b by (fastforce simp add: sorted_wrt_append)
  moreover have "\<forall>i \<in> set (?new @ assigned_ids mk evs ?st). imageId st \<le> i"
    using n b c by fastforce
  ultimately show ?case by (simp only: a) 
qed

lemma run_counter: "imageId st \<le> imageId (fst (run mk evs st))"
proof (induction evs arbitrary: st)
  case Nil
  then show ?case by simp
next
  case (Cons ev evs)
  have "imageId st \<le> imageId (fst (step mk ev st))" by (rule step_counter)
  also have "\<dots> \<le> imageId (fst (run mk evs (fst (step mk ev st))))" by (rule Cons.IH)
  finally show ?case by (simp only: fst_run_Cons)
qed

lemma assigned_ids_below:
  "\<forall>i \<in> set (assigned_ids mk evs st). i < imageId (fst (run mk evs st))"
proof (induction evs arbitrary: st)
  case Nil
  then show ?case by simp
next
  case (Cons ev evs)
  let ?st = "fst (step mk ev st)"
  let ?new = "case ev of SelectFiles files \<Rightarrow>
                staged_ids (drop (length (imageInfos st)) (imageInfos ?st)) | _ \<Rightarrow> []"
  have a: "assigned_ids mk (ev # evs) st = ?new @ assigned_ids mk evs ?st"
    by (simp add: Let_def)
  have n: "\<forall>i \<in> set ?new. i < imageId ?st"
    using step_new_ids [of st mk] by (cases ev) simp_all
  have c: "imageId ?st \<le> imageId (fst (run mk evs ?st))" by (rule run_counter)
  have "\<forall>i \<in> set (?new @ assigned_ids mk evs ?st). i < imageId (fst (run mk evs ?st))"
    using n c Cons.IH [of ?st] by fastforce
  then show ?case by (simp only: a fst_run_Cons)
qed

lemma step_previews:
  "set (staged_ids (imageInfos (fst (step mk ev st))))
     \<subseteq> set (staged_ids (imageInfos st)) \<union> set (assigned_ids mk [ev] st)"
proof (cases ev)
  case (QuerySettled res)
  then show ?thesis
    using staged_ids_hosted
    by (auto simp add: postQueryCompleted_def Let_def split: sum.splits option.splits)
next
  case (SelectFiles files)
  show ?thesis
  proof (cases "inputDisabled (view st) \<or> formData st = None")
    case True
    with SelectFiles show ?thesis by (auto simp add: createPreviewImages_no_form_data)
  next
    case False
    then obtain fd where fd: "formData st = Some fd" by auto
    from False SelectFiles show ?thesis
      by (simp add: createPreviewImages_closed [OF fd] staged_ids_append Let_def)
  qed
next
  case (ClickDelete i)
  then show ?thesis
    by (auto simp add: deletePreviewImage_def staged_ids_filter split: option.splits)
next
  case (TypeText f v)
  then show ?thesis by (cases f) auto
next
  case (Blur f)
  with revalidate_staging [of f st] show ?thesis by simp
next
  case Submit
  with submit_staging [of st] show ?thesis by simp
next
  case (UploadSettled i res)
  with uploadSettled_staging [of i res st] show ?thesis by simp
next
  case (MutationSettled i res)
  with mutationSettled_staging [of i res st] show ?thesis by simp
next
  case Render
  with render_staging [of st] show ?thesis by simp
qed

lemma run_previews:
  "set (staged_ids (imageInfos (fst (run mk evs st))))
     \<subseteq> set (staged_ids (imageInfos st)) \<union> set (assigned_ids mk evs st)"
proof (induction evs arbitrary: st)
  case Nil
  then show ?case by simp
next
  case (Cons ev evs)
  let ?st = "fst (step mk ev st)"
  have a: "set (assigned_ids mk (ev # evs) st)
             = set (assigned_ids mk [ev] st) \<union> set (assigned_ids mk evs ?st)"
    by (simp add: Let_def)
  from Cons.IH [of ?st] step_previews [of mk ev st]
  have "set (staged_ids (imageInfos (fst (run mk evs ?st))))
     \<subseteq> set (staged_ids (imageInfos st)) \<union> (set (assigned_ids mk [ev] st)
           \<union> set (assigned_ids mk evs ?st))"
    by blast
  then show ?case by (simp only: a fst_run_Cons)
qed

text \<open>
  Claim C7. Over a whole session of the update page, whatever its events, the
  identifiers given to staged images strictly increase in the order in which they are
  given, so that each is greater than every identifier given before it and none is given
  twice, also after the image that bore it has been removed; all of them lie below the
  counter; the staged previews carry such identifiers, no two the same, and the names of
  the form data are those of the staged previews, no two the same.
\<close>

theorem local_ids_fresh:
  "sorted_wrt (<) (assigned_ids mk evs (init hasFormData pid nickname))
   \<and> list_all (\<lambda>i. i < imageId (fst (run mk evs (init hasFormData pid nickname))))
        (assigned_ids mk evs (init hasFormData pid nickname))
   \<and> list_all (\<lambda>i. i \<in> set (assigned_ids mk evs (init hasFormData pid nickname)))
        (staged_ids (imageInfos (fst (run mk evs (init hasFormData pid nickname)))))
   \<and> distinct (staged_ids (imageInfos (fst (run mk evs (init hasFormData pid nickname)))))
   \<and> bundle_keys (fst (run mk evs (init hasFormData pid nickname)))
        = map (\<lambda>i. image_key (Some i))
            (staged_ids (imageInfos (fst (run mk evs (init hasFormData pid nickname)))))
   \<and> distinct (bundle_keys (fst (run mk evs (init hasFormData pid nickname))))"
proof -
  let ?init = "init hasFormData pid nickname"
  let ?st = "fst (run mk evs ?init)"
  have inv: "staging_inv ?st" by (rule staging_inv_reached)
  then have d: "distinct (staged_ids (imageInfos ?st))"
    by (simp add: staging_inv_def sorted_ids_distinct)
  from inv have k: "bundle_keys ?st = map (\<lambda>i. image_key (Some i)) (staged_ids (imageInfos ?st))"
    by (simp add: staging_inv_def)
  have "inj_on (\<lambda>i. image_key (Some i)) (set (staged_ids (imageInfos ?st)))"
    using string_of_nat_inj by (auto intro!: inj_onI)
  with d have dk: "distinct (bundle_keys ?st)"
    by (simp only: k distinct_map)
  have s: "sorted_wrt (<) (assigned_ids mk evs ?init)"
    using assigned_ids_increase by blast
  have b: "list_all (\<lambda>i. i < imageId ?st) (assigned_ids mk evs ?init)"
    using assigned_ids_below [of mk evs ?init] by (simp add: list_all_iff)
  have "staged_ids (imageInfos ?init) = []"
    by (simp add: init_def staged_ids_def map_filter_def)
  with run_previews [of mk evs ?init]
  have p: "list_all (\<lambda>i. i \<in> set (assigned_ids mk evs ?init)) (staged_ids (imageInfos ?st))"
    by (auto simp add: list_all_iff)
  from s b p d k dk show ?thesis by simp
qed

section \<open>The sample page\<close>

lemma string_of_nat_0: "string_of_nat 0 = ''0''"
  by code_simp

lemma string_of_nat_2: "string_of_nat 2 = ''2''"
  by code_simp

lemma string_of_nat_2': "string_of_nat (Suc (Suc 0)) = ''2''"
  by code_simp

lemma sample_page_eq:
  "sample_page =
     \<lparr>imageInfos = [HostedUrl ''https://cdn/x.webp'', ImageInfo 0 ''a.png'', ImageInfo 2 ''c.jpg''],
      isPostUpdateLoading = False,
      formData = Some [(''image0'', photo_png), (''image2'', photo_jpg)],
      imageId = 4, postId = ''7'', title = ''Hello'', contents = ''first'',
      errors = \<lparr>title_error = None, contents_error = None\<rparr>,
      isSubmitted = False, nextIdent = 0, loading = False, inflight = [],
      view = \<lparr>v_loading = False, v_errors = \<lparr>title_error = None, contents_error = None\<rparr>,
               v_isPostUpdateLoading = False\<rparr>\<rparr>"
  by (simp add: sample_page_def init_def sample_post_def postQueryCompleted_def render_def
      inputDisabled_def createPreviewImages_def photo_png_def notes_txt_def photo_jpg_def
      fd_append_def string_of_nat_0 string_of_nat_2')

lemma sample_page_session: "session_inv sample_page"
  unfolding sample_page_def using session_inv_init by (rule session_inv_run)

lemma sample_page_inv: "staging_inv sample_page"
  using sample_page_session by (simp add: session_inv_def)

theorem unstage_both_or_neither_witness:
  "staging_inv sample_page
   \<and> imageInfos (deletePreviewImage (Some 0) sample_page)
       = [HostedUrl ''https://cdn/x.webp'', ImageInfo 2 ''c.jpg'']
   \<and> bundle_keys (deletePreviewImage (Some 0) sample_page) = [''image2'']
   \<and> deletePreviewImage (Some 1) sample_page = sample_page"
proof -
  have i: "staged_ids (imageInfos sample_page) = [0, 2]"
    by (simp add: sample_page_eq staged_ids_def map_filter_def)
  from unstage_both_or_neither [OF sample_page_inv, of 0]
  have k: "bundle_keys (deletePreviewImage (Some 0) sample_page) = [''image2'']"
    by (simp add: i string_of_nat_2)
  from unstage_both_or_neither [OF sample_page_inv, of 1]
  have n: "deletePreviewImage (Some 1) sample_page = sample_page"
    by (simp add: i)
  have "imageInfos (deletePreviewImage (Some 0) sample_page)
       = [HostedUrl ''https://cdn/x.webp'', ImageInfo 2 ''c.jpg'']"
    by (simp add: sample_page_eq deletePreviewImage_def)
  with sample_page_inv k n show ?thesis by simp
qed

section \<open>The upload is never called\<close>

lemma step_no_upload:
  assumes "session_inv st"
  shows "upload_calls (snd (step mk ev st)) = 0"
proof (cases ev)
  case (QuerySettled res)
  then show ?thesis by (simp add: upload_calls_def split: sum.splits)
next
  case (SelectFiles files)
  then show ?thesis by (simp add: upload_calls_def)
next
  case (ClickDelete i)
  then show ?thesis by (simp add: upload_calls_def)
next
  case (TypeText f v)
  then show ?thesis by (cases f) (simp_all add: upload_calls_def)
next
  case (Blur f)
  then show ?thesis by (simp add: upload_calls_def)
next
  case Submit
  from assms have s: "staging_inv st" by (simp add: session_inv_def)
  show ?thesis
  proof (cases "submitDisabled (view st)")
    case True
    with Submit show ?thesis by (simp add: submit_disabled upload_calls_def)
  next
    case False
    note en = this
    show ?thesis
    proof (cases "title st = [] \<or> contents st = []")
      case True
      with Submit show ?thesis by (simp add: submit_invalid [OF en True] upload_calls_def)
    next
      case False
      then have "title st \<noteq> []" "contents st \<noteq> []" by simp_all
      with Submit show ?thesis
        by (simp add: submit_valid [OF en _ _ no_images [OF s]] upload_calls_def)
    qed
  qed
next
  case (UploadSettled i res)
  then show ?thesis
    by (simp add: upload_calls_def uploadSettled_def split: task.splits sum.splits)
next
  case (MutationSettled i res)
  then show ?thesis
    by (simp add: upload_calls_def mutationSettled_def updatePostCallbacks_def
        split: task.splits mutation_result.splits option.splits)
next
  case Render
  then show ?thesis
    by (simp add: upload_calls_def render_def errorToast_def split: option.splits)
qed

lemma upload_never_called:
  "session_inv st \<Longrightarrow> upload_calls (snd (run mk evs st)) = 0"
proof (induction evs arbitrary: st)
  case Nil
  then show ?case by (simp add: upload_calls_def)
next
  case (Cons ev evs)
  from Cons.prems have "session_inv (fst (step mk ev st))" by (rule session_inv_step)
  then have "upload_calls (snd (run mk evs (fst (step mk ev st)))) = 0" by (rule Cons.IH)
  moreover have "upload_calls (snd (step mk ev st)) = 0" using Cons.prems by (rule step_no_upload)
  ultimately show ?case by (simp add: snd_run_Cons upload_calls_def del: run.simps)
qed

lemma upload_never_called_in_session:
  "upload_calls (snd (run mk evs (init hasFormData pid nickname))) = 0"
  using session_inv_init by (rule upload_never_called)

lemma sample_page_enabled:
  "\<not> submitDisabled (view sample_page) \<and> title sample_page \<noteq> []
   \<and> contents sample_page \<noteq> [] \<and> \<not> loading sample_page"
  by (simp add: sample_page_eq submitDisabled_def isEmpty_def)

text \<open>
  Claim C1. The claim asks that a submission with staged images calls the upload once
  and puts the hosted URLs into \<open>imageUrls\<close>. On the sample page, whose form data holds
  the two staged images under the names \<open>image0\<close> and \<open>image2\<close>, \<open>submit\<close> calls the
  mutation at once, with no image URLs, and never the upload: the test of line 125 asks
  for the name \<open>images\<close>, which \<open>createPreviewImages\<close> never gives.
\<close>

theorem submit_skips_upload:
  "bundle_keys sample_page = [''image0'', ''image2'']
   \<and> snd (submit sample_page)
       = [UpdatePostMutation \<lparr>input_id = ''7'', input_title = ''Hello'',
            input_contents = ''first'', input_imageUrls = None\<rparr>]
   \<and> upload_calls (snd (submit sample_page)) = 0"
proof -
  have k: "bundle_keys sample_page = [''image0'', ''image2'']"
    by (simp add: sample_page_eq bundle_keys_def)
  have h: "\<not> has_images sample_page"
    by (simp add: sample_page_eq has_images_def fd_has_def)
  from sample_page_enabled have "snd (submit sample_page)
       = [UpdatePostMutation \<lparr>input_id = postId sample_page, input_title = title sample_page,
            input_contents = contents sample_page, input_imageUrls = None\<rparr>]"
    by (simp add: submit_valid [OF _ _ _ h])
  then have s: "snd (submit sample_page)
       = [UpdatePostMutation \<lparr>input_id = ''7'', input_title = ''Hello'',
            input_contents = ''first'', input_imageUrls = None\<rparr>]"
    by (simp add: sample_page_eq)
  from k s show ?thesis by (simp add: upload_calls_def)
qed

section \<open>A failed submission\<close>









section \<open>An invalid submission\<close>

lemma invalid_toast:
  assumes "title st = [] \<or> contents st = []"
  shows "errorToast (validate st)
      = [ToastWarn (if title st = [] then TitleRequired else ContentsRequired)]"
  using assms by (auto simp add: errorToast_def validate_def required_def)

text \<open>
  Claim C5. A submission with an empty title or empty contents calls neither the upload
  nor the mutation and suspends no call of \<open>updatePost\<close>; made through the enabled
  submit button, it shows exactly one warning at the render that follows, that of the
  title when the title is empty and that of the contents otherwise, a further render
  shows nothing more, and the submit button is then disabled.
\<close>

theorem invalid_submission_blocked:
  assumes "title st = [] \<or> contents st = []"
  shows "upload_calls (snd (submit st)) = 0
    \<and> mutation_calls (snd (submit st)) = 0
    \<and> inflight (fst (submit st)) = inflight st
    \<and> isPostUpdateLoading (fst (submit st)) = isPostUpdateLoading st
    \<and> (\<not> submitDisabled (view st) \<longrightarrow>
          snd (run mk [Submit, Render] st)
            = [ToastWarn (if title st = [] then TitleRequired else ContentsRequired)]
          \<and> snd (run mk [Submit, Render, Render] st)
            = [ToastWarn (if title st = [] then TitleRequired else ContentsRequired)]
          \<and> submitDisabled (view (fst (run mk [Submit, Render] st))))"
proof (cases "submitDisabled (view st)")
  case True
  then show ?thesis by (simp add: submit_disabled upload_calls_def mutation_calls_def)
next
  case False
  note s = submit_invalid [OF False assms]
  let ?st1 = "st\<lparr>errors := validate st, isSubmitted := True, nextIdent := nextIdent st + 2\<rparr>"
  from False have ve: "title_error (v_errors (view st)) = None"
    "contents_error (v_errors (view st)) = None"
    by (simp_all add: submitDisabled_def isEmpty_def)
  from assms have ne: "\<not> isEmpty (validate st)" by (simp add: validate_empty)
  then have ch: "contents_error (validate st) \<noteq> None \<or> title_error (validate st) \<noteq> None"
    by (auto simp add: isEmpty_def)
  let ?v = "\<lparr>v_loading = loading st, v_errors = validate st,
              v_isPostUpdateLoading = isPostUpdateLoading st\<rparr>"
  have r1: "render ?st1 = (?st1\<lparr>view := ?v\<rparr>,
      [ToastWarn (if title st = [] then TitleRequired else ContentsRequired)])"
    using ch ve by (auto simp add: render_def invalid_toast [OF assms])
  have r2: "render (?st1\<lparr>view := ?v\<rparr>) = (?st1\<lparr>view := ?v\<rparr>, [])"
    by (simp add: render_def)
  have a: "snd (run mk [Submit, Render] st) = snd (submit st) @ snd (render (fst (submit st)))"
    by (simp split: prod.splits)
  have b: "fst (run mk [Submit, Render] st) = fst (render (fst (submit st)))"
    by (simp split: prod.splits)
  have c: "snd (run mk [Submit, Render, Render] st)
      = snd (submit st) @ snd (render (fst (submit st)))
        @ snd (render (fst (render (fst (submit st)))))"
    by (simp split: prod.splits)
  have 1: "snd (run mk [Submit, Render] st)
      = [ToastWarn (if title st = [] then TitleRequired else ContentsRequired)]"
    by (simp only: a s fst_conv snd_conv r1 append_Nil)
  have 2: "snd (run mk [Submit, Render, Render] st)
      = [ToastWarn (if title st = [] then TitleRequired else ContentsRequired)]"
    by (simp only: c s fst_conv snd_conv r1 r2 append_Nil append_Nil2)
  have 3: "submitDisabled (view (fst (run mk [Submit, Render] st)))"
    using ne by (simp only: b s fst_conv r1) (simp add: submitDisabled_def)
  from 1 2 3 show ?thesis
    by (simp add: s upload_calls_def mutation_calls_def)
qed

theorem invalid_submission_blocked_witness:
  "(title blank_page = [] \<or> contents blank_page = [])
   \<and> \<not> submitDisabled (view blank_page)
   \<and> snd (run file_name [Submit, Render] blank_page) = [ToastWarn TitleRequired]
   \<and> snd (run file_name [Submit, Render] empty_page) = [ToastWarn TitleRequired]
   \<and> snd (run file_name [Submit, Render] (empty_page\<lparr>title := ''t''\<rparr>))
       = [ToastWarn ContentsRequired]"
proof -
  have h: "title blank_page = [] \<or> contents blank_page = []"
    by (simp add: blank_page_def init_def)
  have d: "\<not> submitDisabled (view blank_page)"
    by (simp add: blank_page_def init_def submitDisabled_def isEmpty_def)
  have h2: "title empty_page = [] \<or> contents empty_page = []"
    by (simp add: empty_page_def init_def)
  have d2: "\<not> submitDisabled (view empty_page)"
    by (simp add: empty_page_def init_def submitDisabled_def isEmpty_def)
  have h3: "title (empty_page\<lparr>title := ''t''\<rparr>) = [] \<or> contents (empty_page\<lparr>title := ''t''\<rparr>) = []"
    by (simp add: empty_page_def init_def)
  have d3: "\<not> submitDisabled (view (empty_page\<lparr>title := ''t''\<rparr>))"
    by (simp add: empty_page_def init_def submitDisabled_def isEmpty_def)
  from invalid_submission_blocked [OF h, of file_name] d
  have 1: "snd (run file_name [Submit, Render] blank_page) = [ToastWarn TitleRequired]"
    by (simp add: blank_page_def init_def del: run.simps)
  from invalid_submission_blocked [OF h2, of file_name] d2
  have 2: "snd (run file_name [Submit, Render] empty_page) = [ToastWarn TitleRequired]"
    by (simp add: empty_page_def init_def del: run.simps)
  from invalid_submission_blocked [OF h3, of file_name] d3
  have 3: "snd (run file_name [Submit, Render] (empty_page\<lparr>title := ''t''\<rparr>))
       = [ToastWarn ContentsRequired]"
    by (simp del: run.simps)
  from h d 1 2 3 show ?thesis by (simp del: run.simps)
qed

section \<open>A pending submission\<close>

lemma pending_step:
  assumes "session_inv st" and "isPostUpdateLoading st"
    and "v_isPostUpdateLoading (view st)" and "\<not> is_mutation_settled ev"
  shows "isPostUpdateLoading (fst (step mk ev st))
    \<and> v_isPostUpdateLoading (view (fst (step mk ev st)))
    \<and> mutation_calls (snd (step mk ev st)) = 0"
proof (cases ev)
  case (QuerySettled res)
  with assms(2,3) show ?thesis
    by (simp add: mutation_calls_def postQueryCompleted_def Let_def
        split: sum.splits option.splits)
next
  case (SelectFiles files)
  with assms(2,3) show ?thesis by (simp add: mutation_calls_def inputDisabled_def)
next
  case (ClickDelete i)
  with assms(2,3) show ?thesis
    by (simp add: mutation_calls_def deletePreviewImage_def split: option.splits)
next
  case (TypeText f v)
  with assms(2,3) show ?thesis by (simp add: mutation_calls_def inputDisabled_def)
next
  case (Blur f)
  with assms(2,3) show ?thesis by (simp add: mutation_calls_def inputDisabled_def)
next
  case Submit
  with assms(2,3) show ?thesis
    by (simp add: mutation_calls_def submit_disabled submitDisabled_def)
next
  case (UploadSettled i res)
  from assms(1) have "list_all (\<lambda>t. t = AwaitMutation) (inflight st)"
    by (simp add: session_inv_def)
  then have "i < length (inflight st) \<Longrightarrow> inflight st ! i = AwaitMutation"
    by (simp add: list_all_length)
  with UploadSettled assms(2,3) show ?thesis
    by (simp add: mutation_calls_def uploadSettled_def)
next
  case (MutationSettled i res)
  with assms(4) show ?thesis by simp
next
  case Render
  with assms(2) show ?thesis
    by (simp add: render_def mutation_calls_def errorToast_def split: option.splits)
qed

lemma pending_run:
  "session_inv st \<Longrightarrow> isPostUpdateLoading st \<Longrightarrow> v_isPostUpdateLoading (view st) \<Longrightarrow>
   list_all (\<lambda>ev. \<not> is_mutation_settled ev) evs \<Longrightarrow>
   isPostUpdateLoading (fst (run mk evs st))
   \<and> v_isPostUpdateLoading (view (fst (run mk evs st)))
   \<and> mutation_calls (snd (run mk evs st)) = 0"
proof (induction evs arbitrary: st)
  case Nil
  then show ?case by (simp add: mutation_calls_def)
next
  case (Cons ev evs)
  from Cons.prems have n: "\<not> is_mutation_settled ev"
    and r: "list_all (\<lambda>ev. \<not> is_mutation_settled ev) evs" by simp_all
  from pending_step [OF Cons.prems(1,2,3) n, of mk]
  have p: "isPostUpdateLoading (fst (step mk ev st))"
    and q: "v_isPostUpdateLoading (view (fst (step mk ev st)))"
    and c: "mutation_calls (snd (step mk ev st)) = 0" by simp_all
  have s: "session_inv (fst (step mk ev st))" using Cons.prems(1) by (rule session_inv_step)
  from Cons.IH [OF s p q r]
  have "isPostUpdateLoading (fst (run mk evs (fst (step mk ev st))))"
    and "v_isPostUpdateLoading (view (fst (run mk evs (fst (step mk ev st)))))"
    and "mutation_calls (snd (run mk evs (fst (step mk ev st)))) = 0" by simp_all
  with c show ?case
    by (simp add: fst_run_Cons snd_run_Cons mutation_calls_def del: run.simps)
qed

text \<open>
  Claim C8, as amended. Once the page has been rendered after an accepted submission,
  and until a mutation settles, whatever else happens, further submissions and renders
  included, exactly one mutation has been called; the flag \<open>isPostUpdateLoading\<close> is
  still set, the submit button is disabled by it on the screen, and submitting does
  nothing. The attribute on the screen is the only guard: \<open>updatePost\<close> itself, were it
  called in that state, would call the mutation once more.
\<close>

theorem one_mutation_once_rendered:
  assumes "session_inv st" and "\<not> submitDisabled (view st)"
    and "title st \<noteq> []" and "contents st \<noteq> []"
    and "list_all (\<lambda>ev. \<not> is_mutation_settled ev) evs"
  shows "mutation_calls (snd (run mk (Submit # Render # evs) st)) = 1
    \<and> isPostUpdateLoading (fst (run mk (Submit # Render # evs) st))
    \<and> submitDisabled (view (fst (run mk (Submit # Render # evs) st)))
    \<and> submit (fst (run mk (Submit # Render # evs) st))
         = (fst (run mk (Submit # Render # evs) st), [])
    \<and> mutation_calls (snd (updatePost input (fst (run mk (Submit # Render # evs) st)))) = 1"
proof -
  from assms(1) have s: "staging_inv st" by (simp add: session_inv_def)
  note sv = submit_valid [OF assms(2) assms(3) assms(4) no_images [OF s]]
  let ?st1 = "fst (step mk Submit st)"
  let ?st2 = "fst (step mk Render ?st1)"
  let ?st = "fst (run mk (Submit # Render # evs) st)"
  have p1: "isPostUpdateLoading ?st1" by (simp add: sv)
  have c1: "mutation_calls (snd (step mk Submit st)) = 1" by (simp add: sv mutation_calls_def)
  have s1: "session_inv ?st1" using assms(1) by (rule session_inv_step)
  have s2: "session_inv ?st2" using s1 by (rule session_inv_step)
  have p2: "isPostUpdateLoading ?st2" "v_isPostUpdateLoading (view ?st2)"
    using p1 by (simp_all add: render_def)
  have c2: "mutation_calls (snd (step mk Render ?st1)) = 0"
    by (simp add: render_def mutation_calls_def errorToast_def split: option.splits)
  from pending_run [OF s2 p2 assms(5), of mk]
  have p: "isPostUpdateLoading (fst (run mk evs ?st2))"
    and q: "v_isPostUpdateLoading (view (fst (run mk evs ?st2)))"
    and c: "mutation_calls (snd (run mk evs ?st2)) = 0" by simp_all
  from c1 c2 c have 1: "mutation_calls (snd (run mk (Submit # Render # evs) st)) = 1"
    by (simp add: snd_run_Cons fst_run_Cons mutation_calls_def del: run.simps step.simps)
  from p have 2: "isPostUpdateLoading ?st" by (simp only: fst_run_Cons)
  from q have "v_isPostUpdateLoading (view ?st)" by (simp only: fst_run_Cons)
  then have 3: "submitDisabled (view ?st)" by (simp add: submitDisabled_def)
  then have 4: "submit ?st = (?st, [])" by (rule submit_disabled)
  have "session_inv ?st" using assms(1) by (rule session_inv_run)
  then have "\<not> has_images ?st" by (simp add: session_inv_def no_images)
  then have 5: "mutation_calls (snd (updatePost input ?st)) = 1"
    by (simp add: updatePost_def Let_def has_images_def mutation_calls_def)
  from 1 2 3 4 5 show ?thesis by simp
qed

theorem one_mutation_once_rendered_witness:
  "session_inv sample_page \<and> \<not> submitDisabled (view sample_page)
   \<and> title sample_page \<noteq> [] \<and> contents sample_page \<noteq> []
   \<and> list_all (\<lambda>ev. \<not> is_mutation_settled ev) [Submit, ClickDelete (Some 0), Render, Submit]
   \<and> mutation_calls
        (snd (run file_name
                (Submit # Render # [Submit, ClickDelete (Some 0), Render, Submit])
                sample_page)) = 1"
proof -
  from sample_page_enabled have a: "\<not> submitDisabled (view sample_page)"
    and b: "title sample_page \<noteq> []" and c: "contents sample_page \<noteq> []" by simp_all
  have l: "list_all (\<lambda>ev. \<not> is_mutation_settled ev)
      [Submit, ClickDelete (Some 0), Render, Submit]"
    by simp
  from one_mutation_once_rendered [OF sample_page_session a b c l, of file_name]
    sample_page_session a b c l
  show ?thesis by (simp del: run.simps)
qed

text \<open>
  Claim C8, as stated, asks that a second submit do nothing while the first is pending.
  On the sample page a second submit that comes before the page is rendered again finds
  the button still enabled, although \<open>isPostUpdateLoading\<close> is set, and calls the
  mutation a second time.
\<close>

theorem overlapping_submits_counterexample:
  "\<not> submitDisabled (view sample_page)
   \<and> isPostUpdateLoading (fst (run file_name [Submit] sample_page))
   \<and> mutation_calls (snd (run file_name [Submit] sample_page)) = 1
   \<and> mutation_calls (snd (run file_name [Submit, Submit] sample_page)) = 2"
proof -
  from sample_page_enabled have a: "\<not> submitDisabled (view sample_page)"
    and b: "title sample_page \<noteq> []" and c: "contents sample_page \<noteq> []" by simp_all
  have h: "\<not> has_images sample_page"
    by (simp add: sample_page_eq has_images_def fd_has_def)
  note s = submit_valid [OF a b c h]
  let ?st1 = "sample_page\<lparr>errors := validate sample_page, isSubmitted := True,
      nextIdent := nextIdent sample_page + 2, isPostUpdateLoading := True,
      inflight := inflight sample_page @ [AwaitMutation]\<rparr>"
  have a1: "\<not> submitDisabled (view ?st1)" using a by simp
  have b1: "title ?st1 \<noteq> []" "contents ?st1 \<noteq> []" using b c by simp_all
  have h1: "\<not> has_images ?st1" using h by (simp add: has_images_def)
  note s1 = submit_valid [OF a1 b1 h1]
  have 1: "isPostUpdateLoading (fst (run file_name [Submit] sample_page))"
    by (simp add: s)
  have 2: "mutation_calls (snd (run file_name [Submit] sample_page)) = 1"
    by (simp add: s mutation_calls_def)
  have "snd (run file_name [Submit, Submit] sample_page)
      = snd (submit sample_page) @ snd (submit (fst (submit sample_page)))"
    by (simp split: prod.splits)
  then have 3: "mutation_calls (snd (run file_name [Submit, Submit] sample_page)) = 2"
    by (simp only: s fst_conv snd_conv s1) (simp add: mutation_calls_def)
  from a 1 2 3 show ?thesis by (simp del: run.simps)
qed

section \<open>The comment composer\<close>

text \<open>
  Claim C2, as amended. A comment with non-empty contents is sent with its contents, the
  post id and, exactly when a parent comment is set, the id of that parent. The
  contents field is emptied as soon as the mutation has been started. When the mutation
  succeeds the parent comment is cleared and the success toast shown; when it fails the
  parent comment is as it was, the error is shown, and the contents field stays empty.
\<close>

theorem comment_submit:
  assumes "commentContents st \<noteq> []"
  shows "snd (submitComment st)
       = [CreateCommentMutation
            \<lparr>var_contents = commentContents st, var_postId = commentPostId st,
             var_commentId = map_option pc_id (parentComment st)\<rparr>]
    \<and> commentContents (fst (submitComment st)) = []
    \<and> parentComment (fst (submitComment st)) = parentComment st
    \<and> commentContents
         (fst (createCommentSettled (MutationCompleted (Some created)) (fst (submitComment st))))
        = []
    \<and> parentComment
         (fst (createCommentSettled (MutationCompleted (Some created)) (fst (submitComment st))))
        = None
    \<and> snd (createCommentSettled (MutationCompleted (Some created)) (fst (submitComment st)))
        = [CommentToastSuccess CommentCreated]
    \<and> parentComment
         (fst (createCommentSettled (MutationError err) (fst (submitComment st))))
        = parentComment st
    \<and> commentContents
         (fst (createCommentSettled (MutationError err) (fst (submitComment st))))
        = []
    \<and> snd (createCommentSettled (MutationError err) (fst (submitComment st)))
        = [CommentToastApolloError err]"
  using assms
  by (cases "parentComment st")
     (simp_all add: submitComment_def createComment_def createCommentSettled_def)

theorem comment_submit_witness:
  "commentContents sample_composer \<noteq> []
   \<and> snd (submitComment sample_composer)
       = [CreateCommentMutation
            \<lparr>var_contents = ''hi'', var_postId = ''7'', var_commentId = Some ''c1''\<rparr>]
   \<and> snd (submitComment (setParentComment None sample_composer))
       = [CreateCommentMutation
            \<lparr>var_contents = ''hi'', var_postId = ''7'', var_commentId = None\<rparr>]"
proof -
  have h: "commentContents sample_composer \<noteq> []" by (simp add: sample_composer_def)
  have h2: "commentContents (setParentComment None sample_composer) \<noteq> []"
    by (simp add: sample_composer_def setParentComment_def)
  from comment_submit [OF h] have 1: "snd (submitComment sample_composer)
       = [CreateCommentMutation
            \<lparr>var_contents = ''hi'', var_postId = ''7'', var_commentId = Some ''c1''\<rparr>]"
    by (simp add: sample_composer_def)
  from comment_submit [OF h2] have 2: "snd (submitComment (setParentComment None sample_composer))
       = [CreateCommentMutation
            \<lparr>var_contents = ''hi'', var_postId = ''7'', var_commentId = None\<rparr>]"
    by (simp add: sample_composer_def setParentComment_def)
  from h 1 2 show ?thesis by simp
qed

text \<open>
  Claim C2, as stated, asks that a failed mutation leave the contents of the composer
  untouched. On the sample composer, holding the comment \<open>hi\<close>, the contents after the
  failure are not those before the submission.
\<close>

theorem comment_failure_counterexample:
  "commentContents sample_composer \<noteq> []
   \<and> commentContents
        (fst (createCommentSettled (MutationError (Failure ''offline''))
               (fst (submitComment sample_composer))))
       \<noteq> commentContents sample_composer"
  by (simp add: sample_composer_def submitComment_def createComment_def
      createCommentSettled_def)

section \<open>Lines of the contents\<close>

lemma split_nonempty: "split sep cs \<noteq> []"
  by (induction cs) (simp_all split: list.splits)

lemma length_split: "length (split sep cs) = Suc (count_list cs sep)"
proof (induction cs)
  case Nil
  then show ?case by simp
next
  case (Cons c cs)
  then show ?case
    using split_nonempty [of sep cs] by (cases "split sep cs") auto
qed

lemma join_Cons_nonempty: "ss \<noteq> [] \<Longrightarrow> join sep (s # ss) = s @ sep # join sep ss"
  by (cases ss) simp_all

lemma join_split: "join sep (split sep cs) = cs"
proof (induction cs)
  case Nil
  then show ?case by simp
next
  case (Cons c cs)
  show ?case
  proof (cases "c = sep")
    case True
    with Cons show ?thesis by (simp add: join_Cons_nonempty split_nonempty)
  next
    case False
    from split_nonempty [of sep cs] obtain s ss where e: "split sep cs = s # ss"
      by (cases "split sep cs") auto
    with Cons have "join sep (s # ss) = cs" by simp
    then have "join sep ((c # s) # ss) = c # cs" by (cases ss) auto
    with False e show ?thesis by simp
  qed
qed

lemma split_pieces: "list_all (\<lambda>s. sep \<notin> set s) (split sep cs)"
proof (induction cs)
  case Nil
  then show ?case by simp
next
  case (Cons c cs)
  then show ?case by (cases "split sep cs") auto
qed

text \<open>
  Claim C9. For every contents, the count both pages compute, the length of the list
  obtained by splitting at the newlines, is the number of pieces between newlines, one
  more than the number of newlines: the pieces hold no newline and joined by newlines
  give the contents back. The composer keeps the count as \<open>contentsLineCount\<close>; the
  update form hands it, scaled, to the text area as its height. The count is never
  zero, so the submit button of the composer, rendered when the count is positive, is
  always rendered, and the count keeps no comment from being submitted.
\<close>

theorem contents_line_count:
  "contentsLineCount c = length (split newline c)
   \<and> contentsLineCount c = Suc (count_list c newline)
   \<and> contentsLines times_1_6 c = times_1_6 (length (split newline c))
   \<and> contentsLines times_1_6 c = times_1_6 (Suc (count_list c newline))
   \<and> join newline (split newline c) = c
   \<and> list_all (\<lambda>s. newline \<notin> set s) (split newline c)
   \<and> commentSubmitShown c"
  by (simp add: contentsLineCount_def contentsLines_def commentSubmitShown_def
      length_split join_split split_pieces)

section \<open>The navigation tabs\<close>

text \<open>
  Claim C10. For every path the post-list tab is selected exactly when the path is
  \<open>/\<close>, the event tab exactly when the path starts with \<open>/event\<close>, and never both; so,
  the two colours being different, the two tabs never both carry the colour of a
  selected tab.
\<close>

theorem one_tab_selected:
  "doesPostListSelected asPath = (asPath = ''/'')
   \<and> doesEventListSelected asPath = prefix ''/event'' asPath
   \<and> \<not> (doesPostListSelected asPath \<and> doesEventListSelected asPath)
   \<and> (text_color \<noteq> achromatic_color \<longrightarrow>
        NavigationLayout text_color achromatic_color asPath \<noteq> (text_color, text_color)
        \<and> (fst (NavigationLayout text_color achromatic_color asPath) = text_color)
            = (asPath = ''/'')
        \<and> (snd (NavigationLayout text_color achromatic_color asPath) = text_color)
            = prefix ''/event'' asPath)"
  by (auto simp add: doesPostListSelected_def doesEventListSelected_def NavigationLayout_def)

theorem one_tab_selected_witness:
  "''#222'' \<noteq> ''#999''
   \<and> NavigationLayout ''#222'' ''#999'' ''/'' = (''#222'', ''#999'')
   \<and> NavigationLayout ''#222'' ''#999'' ''/event/3'' = (''#999'', ''#222'')
   \<and> NavigationLayout ''#222'' ''#999'' ''/post/3'' = (''#999'', ''#999'')"
proof -
  have h: "''#222'' \<noteq> ''#999''" by simp
  from one_tab_selected [of "''/''" "''#222''" "''#999''"] h
  have 1: "NavigationLayout ''#222'' ''#999'' ''/'' = (''#222'', ''#999'')"
    by (simp add: NavigationLayout_def doesPostListSelected_def doesEventListSelected_def)
  from one_tab_selected [of "''/event/3''" "''#222''" "''#999''"] h
  have 2: "NavigationLayout ''#222'' ''#999'' ''/event/3'' = (''#999'', ''#222'')"
    by (simp add: NavigationLayout_def doesPostListSelected_def doesEventListSelected_def)
  from one_tab_selected [of "''/post/3''" "''#222''" "''#999''"] h
  have 3: "NavigationLayout ''#222'' ''#999'' ''/post/3'' = (''#999'', ''#999'')"
    by (simp add: NavigationLayout_def doesPostListSelected_def doesEventListSelected_def)
  from h 1 2 3 show ?thesis by simp
qed

end
